theory Spec2Isabelle
  imports Main "HOL-Library.Code_Target_Nat"
begin

section \<open>JavaScript strings\<close>

text \<open>
  A JavaScript string is a sequence of UTF-16 code units. A code unit is modelled by its
  numeric value; ASCII literals are written through \<open>js\<close>.
\<close>

type_synonym jschar = nat
type_synonym jsstring = "jschar list"

definition js :: "string \<Rightarrow> jsstring" where
  "js s = map of_char s"

text \<open>A character class is a list of ranges of code units.\<close>

fun inRanges :: "(jschar \<times> jschar) list \<Rightarrow> jschar \<Rightarrow> bool" where
  "inRanges [] c = False"
| "inRanges ((lo, hi) # rs) c = (if lo \<le> c \<and> c \<le> hi then True else inRanges rs c)"

text \<open>
  The characters of the regular expression class \<open>\s\<close>, which are also the characters
  removed by \<open>String.prototype.trim\<close>: TAB, LF, VT, FF, CR, SP, NBSP, the Unicode space
  separators, LS, PS and the byte order mark.
\<close>

definition wsRanges :: "(jschar \<times> jschar) list" where
  "wsRanges = [(9, 13), (32, 32), (160, 160), (5760, 5760), (8192, 8202), (8232, 8233),
               (8239, 8239), (8287, 8287), (12288, 12288), (65279, 65279)]"

text \<open>The class \<open>\w\<close>: digits, upper case letters, underscore, lower case letters.\<close>

definition wordRanges :: "(jschar \<times> jschar) list" where
  "wordRanges = [(48, 57), (65, 90), (95, 95), (97, 122)]"

definition isWhiteSpace :: "jschar \<Rightarrow> bool" where
  "isWhiteSpace c = inRanges wsRanges c"

definition isWordChar :: "jschar \<Rightarrow> bool" where
  "isWordChar c = inRanges wordRanges c"

definition isLineTerminator :: "jschar \<Rightarrow> bool" where
  "isLineTerminator c = (c = 10 \<or> c = 13 \<or> c = 8232 \<or> c = 8233)"

definition trimStart :: "jsstring \<Rightarrow> jsstring" where
  "trimStart s = dropWhile isWhiteSpace s"

definition trimEnd :: "jsstring \<Rightarrow> jsstring" where
  "trimEnd s = rev (dropWhile isWhiteSpace (rev s))"

definition trim :: "jsstring \<Rightarrow> jsstring" where
  "trim s = trimStart (trimEnd s)"

text \<open>\<open>s.split(d)\<close> for a separator \<open>d\<close> of one character.\<close>

fun splitChar :: "jschar \<Rightarrow> jsstring \<Rightarrow> jsstring list" where
  "splitChar d [] = [[]]"
| "splitChar d (c # cs) =
     (if c = d then [] # splitChar d cs
      else (case splitChar d cs of [] \<Rightarrow> [[c]] | l # ls \<Rightarrow> (c # l) # ls))"

text \<open>\<open>xs.join(sep)\<close>.\<close>

fun joinStr :: "jsstring \<Rightarrow> jsstring list \<Rightarrow> jsstring" where
  "joinStr sep [] = []"
| "joinStr sep [x] = x"
| "joinStr sep (x # y # ys) = x @ sep @ joinStr sep (y # ys)"

fun startsWith :: "jsstring \<Rightarrow> jsstring \<Rightarrow> bool" where
  "startsWith s [] = True"
| "startsWith [] (a # as) = False"
| "startsWith (c # cs) (a # as) = (c = a \<and> startsWith cs as)"

text \<open>\<open>s.includes(sub)\<close>.\<close>

fun includesStr :: "jsstring \<Rightarrow> jsstring \<Rightarrow> bool" where
  "includesStr [] sub = (sub = [])"
| "includesStr (c # cs) sub = (startsWith (c # cs) sub \<or> includesStr cs sub)"

text \<open>The decimal digits of a number, as template literals print \<open>nextTokenId\<close>.\<close>

function showNat :: "nat \<Rightarrow> jsstring" where
  "showNat n = (if n < 10 then [48 + n] else showNat (n div 10) @ [48 + n mod 10])"
  by pat_completeness auto
termination
  by (relation "measure id") auto

declare showNat.simps [simp del]

section \<open>Regular expressions\<close>

text \<open>
  The patterns of the program use character classes, sequences, alternatives, greedy and
  lazy quantifiers, capturing groups, a backreference, the assertions \<open>^\<close>, \<open>$\<close>
  and \<open>\b\<close>, and the flags \<open>i\<close> and \<open>m\<close> (every pattern is global). None has the
  \<open>u\<close> flag, so matching is on code units and case folding only relates the ASCII letters
  for the characters these patterns name.
\<close>

record flags =
  ignoreCase :: bool
  multiline :: bool

datatype rx =
    Eps
  | Chr jschar
  | Cls bool "(jschar \<times> jschar) list"
  | Dot
  | Seq rx rx
  | Alt rx rx
  | Rep nat "nat option" bool rx
  | Grp nat rx
  | Bref nat
  | Bol
  | Eol
  | Wordb

type_synonym caps = "(nat \<times> jsstring) list"

text \<open>
  A matcher state: the character before the current position (if any), the rest of the
  input from the current position, and the strings captured so far.
\<close>

type_synonym mstate = "jschar option \<times> jsstring \<times> caps"

definition canon :: "bool \<Rightarrow> jschar \<Rightarrow> jschar" where
  "canon ic c = (if ic \<and> 97 \<le> c \<and> c \<le> 122 then c - 32 else c)"

text \<open>
  Membership in a class; with the flag \<open>i\<close> a letter is also a member when its
  other case is.
\<close>

definition inCls :: "bool \<Rightarrow> (jschar \<times> jschar) list \<Rightarrow> jschar \<Rightarrow> bool" where
  "inCls ic rs c =
     (if inRanges rs c then True
      else if \<not> ic then False
      else if 97 \<le> c \<and> c \<le> 122 then inRanges rs (c - 32)
      else if 65 \<le> c \<and> c \<le> 90 then inRanges rs (c + 32)
      else False)"

fun rxdepth :: "rx \<Rightarrow> nat" where
  "rxdepth (Seq a b) = Suc (rxdepth a + rxdepth b)"
| "rxdepth (Alt a b) = Suc (rxdepth a + rxdepth b)"
| "rxdepth (Rep _ _ _ r) = Suc (rxdepth r)"
| "rxdepth (Grp n r) = Suc (rxdepth r)"
| "rxdepth _ = 0"

text \<open>
  \<open>stripPrefix ic w s\<close> consumes \<open>w\<close> from the front of \<open>s\<close> (a backreference) and
  returns the last character consumed and the rest.
\<close>

fun stripPrefix :: "bool \<Rightarrow> jsstring \<Rightarrow> jsstring \<Rightarrow> (jschar option \<times> jsstring) option" where
  "stripPrefix ic [] ys = Some (None, ys)"
| "stripPrefix ic (x # xs) [] = None"
| "stripPrefix ic (x # xs) (y # ys) =
     (if canon ic x = canon ic y
      then (case stripPrefix ic xs ys of None \<Rightarrow> None
            | Some (None, r) \<Rightarrow> Some (Some y, r)
            | Some (Some l, r) \<Rightarrow> Some (Some l, r))
      else None)"

text \<open>
  \<open>ms fl r x\<close> lists the states in which a match of \<open>r\<close> started in state \<open>x\<close> can
  end, in the order in which a backtracking matcher tries them: the first alternative
  before the second, more iterations of a greedy quantifier before fewer, fewer iterations
  of a lazy one before more. An iteration of a quantifier that consumes nothing once the
  minimum is reached is rejected. No pattern of the program has a capturing group inside
  a quantifier, so an iteration has no captures to clear.
\<close>

function ms :: "flags \<Rightarrow> rx \<Rightarrow> mstate \<Rightarrow> mstate list" where
  "ms fl Eps x = [x]"
| "ms fl (Chr a) (p, s, cs) =
     (case s of [] \<Rightarrow> []
      | c # t \<Rightarrow> if canon (ignoreCase fl) c = canon (ignoreCase fl) a then [(Some c, t, cs)] else [])"
| "ms fl (Cls neg rs) (p, s, cs) =
     (case s of [] \<Rightarrow> []
      | c # t \<Rightarrow> if inCls (ignoreCase fl) rs c \<noteq> neg then [(Some c, t, cs)] else [])"
| "ms fl Dot (p, s, cs) =
     (case s of [] \<Rightarrow> []
      | c # t \<Rightarrow> if isLineTerminator c then [] else [(Some c, t, cs)])"
| "ms fl (Seq a b) x = concat (map (ms fl b) (ms fl a x))"
| "ms fl (Alt a b) x = ms fl a x @ ms fl b x"
| "ms fl (Rep mn mx greedy r) (p, s, cs) =
     (if mx = Some 0 then [(p, s, cs)]
      else
        let iter = concat (map (\<lambda>(p', s', cs').
                      if mn = 0 \<and> \<not> length s' < length s then []
                      else ms fl (Rep (mn - 1) (map_option (\<lambda>k. k - 1) mx) greedy r) (p', s', cs'))
                    (ms fl r (p, s, cs)))
        in if 0 < mn then iter
           else if greedy then iter @ [(p, s, cs)]
           else (p, s, cs) # iter)"
| "ms fl (Grp n r) (p, s, cs) =
     map (\<lambda>(p', s', cs'). (p', s', (n, take (length s - length s') s) # filter (\<lambda>(k, _). k \<noteq> n) cs'))
       (ms fl r (p, s, cs))"
| "ms fl (Bref n) (p, s, cs) =
     (case map_of cs n of None \<Rightarrow> [(p, s, cs)]
      | Some w \<Rightarrow> (case stripPrefix (ignoreCase fl) w s of None \<Rightarrow> []
                   | Some (None, t) \<Rightarrow> [(p, t, cs)]
                   | Some (Some l, t) \<Rightarrow> [(Some l, t, cs)]))"
| "ms fl Bol (p, s, cs) =
     (case p of None \<Rightarrow> [(p, s, cs)]
      | Some c \<Rightarrow> if multiline fl \<and> isLineTerminator c then [(p, s, cs)] else [])"
| "ms fl Eol (p, s, cs) =
     (case s of [] \<Rightarrow> [(p, s, cs)]
      | c # _ \<Rightarrow> if multiline fl \<and> isLineTerminator c then [(p, s, cs)] else [])"
| "ms fl Wordb (p, s, cs) =
     (let a = (case p of None \<Rightarrow> False | Some c \<Rightarrow> isWordChar c);
          b = (case s of [] \<Rightarrow> False | c # _ \<Rightarrow> isWordChar c)
      in if a \<noteq> b then [(p, s, cs)] else [])"
  by pat_completeness auto
termination
  by (relation "inv_image (less_than <*lex*> less_than <*lex*> less_than)
        (\<lambda>(fl, r, (p, s, cs)). (rxdepth r, (case r of Rep mn _ _ _ \<Rightarrow> mn | _ \<Rightarrow> 0), length s))")
     auto

text \<open>The length of the match found at a position: the first end state the matcher reaches.\<close>

definition matchLen :: "flags \<Rightarrow> rx \<Rightarrow> jschar option \<Rightarrow> jsstring \<Rightarrow> nat option" where
  "matchLen fl r p s =
     (case ms fl r (p, s, []) of [] \<Rightarrow> None | (_, s', _) # _ \<Rightarrow> Some (length s - length s'))"

text \<open>
  The matches of a global pattern in a string, from left to right: at each position the
  pattern is tried; a match is recorded and the search goes on at its end (one character
  further after an empty match); otherwise the character is passed over.
\<close>

datatype seg = Lit jschar | Mat jsstring

function scan :: "flags \<Rightarrow> rx \<Rightarrow> jschar option \<Rightarrow> jsstring \<Rightarrow> seg list" where
  "scan fl r p s =
     (case matchLen fl r p s of
        Some n \<Rightarrow>
          if 0 < n \<and> s \<noteq> [] then Mat (take n s) # scan fl r (Some (last (take n s))) (drop n s)
          else Mat [] # (case s of [] \<Rightarrow> [] | c # t \<Rightarrow> Lit c # scan fl r (Some c) t)
      | None \<Rightarrow> (case s of [] \<Rightarrow> [] | c # t \<Rightarrow> Lit c # scan fl r (Some c) t))"
  by pat_completeness auto
termination
  by (relation "measure (\<lambda>(fl, r, p, s). length s)") auto

declare scan.simps [simp del]

fun segText :: "seg \<Rightarrow> jsstring" where
  "segText (Lit c) = [c]"
| "segText (Mat m) = m"

definition segsText :: "seg list \<Rightarrow> jsstring" where
  "segsText segs = concat (map segText segs)"

text \<open>\<open>s.replace(re, f)\<close> for a function \<open>f\<close> of the match that reads and writes a state.\<close>

fun replaceFn :: "(jsstring \<Rightarrow> 'st \<Rightarrow> jsstring \<times> 'st) \<Rightarrow> seg list \<Rightarrow> 'st \<Rightarrow> jsstring \<times> 'st" where
  "replaceFn f [] st = ([], st)"
| "replaceFn f (Lit c # segs) st = (let (r, st') = replaceFn f segs st in (c # r, st'))"
| "replaceFn f (Mat m # segs) st =
     (let (x, st1) = f m st; (r, st2) = replaceFn f segs st1 in (x @ r, st2))"

definition replaceWith ::
  "flags \<Rightarrow> rx \<Rightarrow> (jsstring \<Rightarrow> 'st \<Rightarrow> jsstring \<times> 'st) \<Rightarrow> jsstring \<Rightarrow> 'st \<Rightarrow> jsstring \<times> 'st" where
  "replaceWith fl r f s st = replaceFn f (scan fl r None s) st"

text \<open>
  \<open>s.replace(re, str)\<close> for a replacement string: \<open>$$\<close> stands for a dollar sign,
  \<open>$&\<close> for the match, \<open>$`\<close> for the text before the match and \<open>$'\<close> for the text
  after it. The patterns replaced by a string have no capturing group, so \<open>$1\<close> to
  \<open>$99\<close> and \<open>$<\<close> stand for themselves.
\<close>

fun getSubstitution :: "jsstring \<Rightarrow> jsstring \<Rightarrow> jsstring \<Rightarrow> jsstring \<Rightarrow> jsstring" where
  "getSubstitution [] matched pre post = []"
| "getSubstitution [c] matched pre post = [c]"
| "getSubstitution (c # d # r) matched pre post =
     (if c = 36 \<and> d = 36 then 36 # getSubstitution r matched pre post
      else if c = 36 \<and> d = 38 then matched @ getSubstitution r matched pre post
      else if c = 36 \<and> d = 96 then pre @ getSubstitution r matched pre post
      else if c = 36 \<and> d = 39 then post @ getSubstitution r matched pre post
      else c # getSubstitution (d # r) matched pre post)"

fun replaceSegs :: "jsstring \<Rightarrow> jsstring \<Rightarrow> seg list \<Rightarrow> jsstring" where
  "replaceSegs rep pre [] = []"
| "replaceSegs rep pre (Lit c # segs) = c # replaceSegs rep (pre @ [c]) segs"
| "replaceSegs rep pre (Mat m # segs) =
     getSubstitution rep m pre (segsText segs) @ replaceSegs rep (pre @ m) segs"

definition replaceStr :: "flags \<Rightarrow> rx \<Rightarrow> jsstring \<Rightarrow> jsstring \<Rightarrow> jsstring" where
  "replaceStr fl r rep s = replaceSegs rep [] (scan fl r None s)"

text \<open>
  \<open>s.split(re)\<close> for a pattern without capturing groups: the pattern is tried at each
  position after the start of the current piece; a match that is empty at the start of
  the piece is passed over.
\<close>

function splitLoop :: "flags \<Rightarrow> rx \<Rightarrow> jschar option \<Rightarrow> jsstring \<Rightarrow> jsstring \<Rightarrow> jsstring list" where
  "splitLoop fl r p cur s =
     (case s of [] \<Rightarrow> [cur]
      | c # t \<Rightarrow>
          (case matchLen fl r p s of
             Some n \<Rightarrow>
               if 0 < n then cur # splitLoop fl r (Some (last (take n s))) [] (drop n s)
               else if cur \<noteq> [] then cur # splitLoop fl r (Some c) [c] t
               else splitLoop fl r (Some c) (cur @ [c]) t
           | None \<Rightarrow> splitLoop fl r (Some c) (cur @ [c]) t))"
  by pat_completeness auto
termination
  by (relation "measure (\<lambda>(fl, r, p, cur, s). length s)") auto

declare splitLoop.simps [simp del]

definition splitRx :: "flags \<Rightarrow> rx \<Rightarrow> jsstring \<Rightarrow> jsstring list" where
  "splitRx fl r s =
     (if s = [] then (if matchLen fl r None [] = None then [[]] else [])
      else splitLoop fl r None [] s)"

subsection \<open>Pattern notation\<close>

definition seqs :: "rx list \<Rightarrow> rx" where
  "seqs rs = foldr Seq rs Eps"

definition alts :: "rx \<Rightarrow> rx list \<Rightarrow> rx" where
  "alts r rs = foldl Alt r rs"

definition ch :: "char \<Rightarrow> rx" where
  "ch c = Chr (of_char c)"

definition str :: "string \<Rightarrow> rx" where
  "str s = seqs (map ch s)"

definition lit :: "jsstring \<Rightarrow> rx" where
  "lit s = seqs (map Chr s)"

definition opt :: "rx \<Rightarrow> rx" where
  "opt r = Rep 0 (Some 1) True r"

definition plus :: "rx \<Rightarrow> rx" where
  "plus r = Rep 1 None True r"

definition star :: "rx \<Rightarrow> rx" where
  "star r = Rep 0 None True r"

definition lazyStar :: "rx \<Rightarrow> rx" where
  "lazyStar r = Rep 0 None False r"

definition one :: "char \<Rightarrow> jschar \<times> jschar" where
  "one c = (of_char c, of_char c)"

definition flagsG :: flags where
  "flagsG = \<lparr>ignoreCase = False, multiline = False\<rparr>"

definition flagsGI :: flags where
  "flagsGI = \<lparr>ignoreCase = True, multiline = False\<rparr>"

definition flagsGM :: flags where
  "flagsGM = \<lparr>ignoreCase = False, multiline = True\<rparr>"

definition flagsGMI :: flags where
  "flagsGMI = \<lparr>ignoreCase = True, multiline = True\<rparr>"

section \<open>The application state\<close>

text \<open>
  The fields of the \<open>SpaceWrapper\<close> object that processing reads or writes: the mode
  selected by the radio buttons, the protection table (a \<open>Map\<close>, in insertion order),
  the token counter, and what the page displays: the output text, whether the copy button
  is disabled, the text of the warning banner (\<open>None\<close> while it is hidden), the output
  statistics and the three verification indicators (\<open>True\<close> for the check mark).
\<close>

record app =
  mode :: jsstring
  protectedMap :: "(jsstring \<times> jsstring) list"
  nextTokenId :: nat
  outputText :: jsstring
  copyDisabled :: bool
  warning :: "jsstring option"
  outputWordCount :: nat
  outputCharCount :: nat
  lineBreaksRemoved :: nat
  wordMatch :: bool
  charMatch :: bool
  contentMatch :: bool

text \<open>\<open>Map.prototype.set\<close>: a new key goes to the end, an old key keeps its place.\<close>

fun mapSet :: "'k \<Rightarrow> 'v \<Rightarrow> ('k \<times> 'v) list \<Rightarrow> ('k \<times> 'v) list" where
  "mapSet k v [] = [(k, v)]"
| "mapSet k v ((k', v') # m) = (if k' = k then (k, v) # m else (k', v') # mapSet k v m)"

definition showWarning :: "jsstring \<Rightarrow> app \<Rightarrow> app" where
  "showWarning message st = st\<lparr>warning := Some message\<rparr>"

section \<open>Errors\<close>

text \<open>
  An engine does not make a string longer than its limit: the operation that would return
  one raises a \<open>RangeError\<close> instead. The limit and the message of the error are those
  of V8, \<open>2^29 - 24\<close> code units and \<open>Invalid string length\<close>. The operations of the
  pipeline that can return a longer text than they receive have this check: the
  replacement of matches by tokens, the replacement of tokens by originals, the joining of
  the processed batches and the text of the error display. Normalization, the steps of the
  modes, the cleanup, the statistics and the verifier never return a text longer than
  their argument. The other limits of an engine (its memory, the backtracking stack of its
  regular expressions) are outside the model.
\<close>

datatype error = RangeError

definition maxStringLength :: nat where
  "maxStringLength = 536870888"

definition errorMessage :: "error \<Rightarrow> jsstring" where
  "errorMessage e = js ''Invalid string length''"

definition newString :: "jsstring \<Rightarrow> error + jsstring" where
  "newString s = (if length s \<le> maxStringLength then Inr s else Inl RangeError)"

section \<open>The pipeline of script.js\<close>

subsection \<open>Protection\<close>

definition urlRx :: rx where
  "urlRx = Grp 1 (Alt
     (seqs [str ''http'', opt (ch CHR ''s''), str ''://'', plus (Cls True wsRanges)])
     (seqs [str ''www'', ch CHR ''.'', plus (Cls True wsRanges), ch CHR ''.'', plus (Cls True wsRanges)]))"

definition emailRx :: rx where
  "emailRx = seqs [Wordb,
     plus (Cls False (wordRanges @ [one CHR ''.'', one CHR ''%'', one CHR ''+'', one CHR ''-''])),
     ch CHR ''@'',
     plus (Cls False (wordRanges @ [one CHR ''.'', one CHR ''-''])),
     ch CHR ''.'',
     Rep 2 None True (Cls False [(97, 122), (65, 90)]),
     Wordb]"

definition inlineCodeRx :: rx where
  "inlineCodeRx = seqs [Chr 96, Grp 1 (plus (Cls True [(96, 96)])), Chr 96]"

definition filePathRx :: rx where
  "filePathRx = seqs [opt (seqs [Cls False [(97, 122), (65, 90)], ch CHR '':'']),
     plus (seqs [Cls False [(92, 92), (47, 47)],
                 plus (Cls False (wordRanges @ wsRanges @ [one CHR ''.'', one CHR ''-'']))])]"

text \<open>The replacement callback of \<open>protectContent\<close>.\<close>

definition protectMatch :: "jsstring \<Rightarrow> app \<Rightarrow> jsstring \<times> app" where
  "protectMatch match st =
     (if includesStr match (js ''__PROTECTED_'') then (match, st)
      else
        let token = js ''__PROTECTED_'' @ showNat (nextTokenId st) @ js ''__''
        in (token, st\<lparr>protectedMap := mapSet token match (protectedMap st),
                       nextTokenId := nextTokenId st + 1\<rparr>))"

definition patterns :: "(flags \<times> rx) list" where
  "patterns = [(flagsGI, urlRx), (flagsGI, emailRx), (flagsG, inlineCodeRx), (flagsG, filePathRx)]"

text \<open>
  One round of \<open>forEach\<close>: \<open>protectedText = protectedText.replace(pattern.regex, f)\<close>.
  The callback \<open>f\<close> has written to the table when the new text turns out too long;
  after an error the rounds that are left do not run.
\<close>

definition tryReplace ::
  "(jsstring \<Rightarrow> app \<Rightarrow> jsstring \<times> app) \<Rightarrow> (error + jsstring) \<times> app \<Rightarrow> flags \<times> rx \<Rightarrow>
   (error + jsstring) \<times> app" where
  "tryReplace f acc pattern =
     (case acc of
        (Inl e, st) \<Rightarrow> (Inl e, st)
      | (Inr protectedText, st) \<Rightarrow>
          (let (replaced, st') = replaceWith (fst pattern) (snd pattern) f protectedText st
           in (newString replaced, st')))"

definition protectContent :: "jsstring \<Rightarrow> app \<Rightarrow> (error + jsstring) \<times> app" where
  "protectContent text st = foldl (tryReplace protectMatch) (Inr text, st) patterns"

subsection \<open>Restoration\<close>

text \<open>The class \<open>[.*+?^${}()|[\]\\]\<close> of \<open>escapeRegExp\<close>.\<close>

definition syntaxChars :: "(jschar \<times> jschar) list" where
  "syntaxChars = [one CHR ''.'', one CHR ''*'', one CHR ''+'', one CHR ''?'', one CHR ''^'',
     one CHR ''$'', one CHR ''{'', one CHR ''}'', one CHR ''('', one CHR '')'', one CHR ''|'',
     one CHR ''['', one CHR '']'', (92, 92)]"

definition escapeRegExp :: "jsstring \<Rightarrow> jsstring" where
  "escapeRegExp string = replaceStr flagsG (Cls False syntaxChars) [92, 36, 38] string"

text \<open>
  \<open>new RegExp(p, 'g')\<close> for a pattern \<open>p\<close> in which every syntax character is
  escaped, as \<open>escapeRegExp\<close> returns it: an escaped character and any other character
  stand for themselves.
\<close>

fun regExpOfEscaped :: "jsstring \<Rightarrow> rx" where
  "regExpOfEscaped [] = Eps"
| "regExpOfEscaped [c] = Seq (Chr c) Eps"
| "regExpOfEscaped (c # d # r) =
     (if c = 92 then Seq (Chr d) (regExpOfEscaped r) else Seq (Chr c) (regExpOfEscaped (d # r)))"

text \<open>
  One round of \<open>forEach\<close>:
  \<open>restored = restored.replace(new RegExp(this.escapeRegExp(token), 'g'), original)\<close>.
\<close>

definition tryRestore :: "error + jsstring \<Rightarrow> jsstring \<times> jsstring \<Rightarrow> error + jsstring" where
  "tryRestore acc entry =
     (case acc of
        Inl e \<Rightarrow> Inl e
      | Inr restored \<Rightarrow>
          newString (replaceStr flagsG (regExpOfEscaped (escapeRegExp (fst entry))) (snd entry) restored))"

definition restoreProtectedContent :: "jsstring \<Rightarrow> app \<Rightarrow> error + jsstring" where
  "restoreProtectedContent text st = foldl tryRestore (Inr text) (protectedMap st)"

subsection \<open>Whitespace and modes\<close>

text \<open>The class \<open>[\t\r\f\v\u00A0\u1680\u2000-\u200A\u2028\u2029\u202F\u205F\u3000]\<close>.\<close>

definition unicodeSpaces :: "(jschar \<times> jschar) list" where
  "unicodeSpaces = [(9, 9), (13, 13), (12, 12), (11, 11), (160, 160), (5760, 5760),
     (8192, 8202), (8232, 8232), (8233, 8233), (8239, 8239), (8287, 8287), (12288, 12288)]"

definition spacesRx :: rx where
  "spacesRx = plus (Cls False [(32, 32)])"

definition blankLineRx :: rx where
  "blankLineRx = seqs [Chr 10, star (Cls False wsRanges), Chr 10]"

definition normalizeWhitespace :: "jsstring \<Rightarrow> jsstring" where
  "normalizeWhitespace text =
     (let normalized = replaceStr flagsG (Cls False unicodeSpaces) [32] text;
          normalized = replaceStr flagsG spacesRx [32] normalized;
          normalized = replaceStr flagsG (Chr 13) [10]
                         (replaceStr flagsG (seqs [Chr 13, Chr 10]) [10] normalized)
      in normalized)"

definition processModeA :: "jsstring \<Rightarrow> jsstring" where
  "processModeA text =
     (let processed = replaceStr flagsG (Chr 10) [32] text;
          processed = replaceStr flagsG spacesRx [32] processed
      in trim processed)"

definition processModeB :: "jsstring \<Rightarrow> jsstring" where
  "processModeB text =
     (let paragraphs = filter (\<lambda>p. trim p \<noteq> []) (splitRx flagsG blankLineRx text);
          processedParagraphs = map (\<lambda>paragraph.
            let processed = replaceStr flagsG (Chr 10) [32] paragraph;
                processed = replaceStr flagsG spacesRx [32] processed
            in trim processed) paragraphs
      in joinStr [10, 10] processedParagraphs)"

definition processModeC :: "jsstring \<Rightarrow> jsstring" where
  "processModeC text =
     (let processed = replaceStr flagsG (Chr 10) [] text;
          processed = replaceStr flagsG (plus (Cls False wsRanges)) [32] processed
      in trim processed)"

definition finalCleanup :: "jsstring \<Rightarrow> jsstring" where
  "finalCleanup text = trim (replaceStr flagsG spacesRx [32] text)"

subsection \<open>Batches\<close>

definition splitIntoBatches :: "jsstring \<Rightarrow> jsstring list" where
  "splitIntoBatches text = filter (\<lambda>batch. trim batch \<noteq> []) (splitRx flagsG blankLineRx text)"

definition processBatch :: "jsstring \<Rightarrow> app \<Rightarrow> (error + jsstring) \<times> app" where
  "processBatch batch st =
     (case protectContent batch st of
        (Inl e, st1) \<Rightarrow> (Inl e, st1)
      | (Inr protectedText, st1) \<Rightarrow>
          (let normalized = normalizeWhitespace protectedText;
               processed =
                 (if mode st1 = js ''A'' then processModeA normalized
                  else if mode st1 = js ''B'' then processModeB normalized
                  else if mode st1 = js ''C'' then processModeC normalized
                  else normalized)
           in case restoreProtectedContent processed st1 of
                Inl e \<Rightarrow> (Inl e, st1)
              | Inr restored \<Rightarrow> (Inr (finalCleanup restored), st1)))"

text \<open>
  \<open>batches.map(batch => this.processBatch(batch))\<close>, the state passing from batch to
  batch; an error ends the loop.
\<close>

fun mapBatches ::
  "(jsstring \<Rightarrow> app \<Rightarrow> (error + jsstring) \<times> app) \<Rightarrow> jsstring list \<Rightarrow> app \<Rightarrow>
   (error + jsstring list) \<times> app" where
  "mapBatches f [] st = (Inr [], st)"
| "mapBatches f (b # bs) st =
     (case f b st of
        (Inl e, st1) \<Rightarrow> (Inl e, st1)
      | (Inr x, st1) \<Rightarrow>
          (case mapBatches f bs st1 of
             (Inl e, st2) \<Rightarrow> (Inl e, st2)
           | (Inr xs, st2) \<Rightarrow> (Inr (x # xs), st2)))"

subsection \<open>Statistics and verification\<close>

definition wordCount :: "jsstring \<Rightarrow> nat" where
  "wordCount s = (if trim s \<noteq> [] then length (splitRx flagsG (plus (Cls False wsRanges)) (trim s)) else 0)"

definition updateOutputStats :: "jsstring \<Rightarrow> jsstring \<Rightarrow> app \<Rightarrow> app" where
  "updateOutputStats original processed st =
     (let processedWords = wordCount processed;
          processedChars = length processed;
          originalLines = length (splitChar 10 original);
          processedLines = length (splitChar 10 processed)
      in st\<lparr>outputWordCount := processedWords,
             outputCharCount := processedChars,
             lineBreaksRemoved := originalLines - processedLines\<rparr>)"

text \<open>
  \<open>new Set(s)\<close> holds the code points of \<open>s\<close>: a high surrogate followed by a low
  surrogate is one element.
\<close>

fun codePoints :: "jsstring \<Rightarrow> jsstring list" where
  "codePoints [] = []"
| "codePoints [c] = [[c]]"
| "codePoints (a # b # r) =
     (if 55296 \<le> a \<and> a \<le> 56319 \<and> 56320 \<le> b \<and> b \<le> 57343 then [a, b] # codePoints r
      else [a] # codePoints (b # r))"

definition verifyContentIntegrity :: "jsstring \<Rightarrow> jsstring \<Rightarrow> app \<Rightarrow> app" where
  "verifyContentIntegrity original processed st =
     (let originalNonSpace = replaceStr flagsG (plus (Cls False wsRanges)) [] original;
          processedNonSpace = replaceStr flagsG (plus (Cls False wsRanges)) [] processed;
          wordMatch' = (wordCount original = wordCount processed);
          charMatch' = (length originalNonSpace = length processedNonSpace);
          contentVerified =
            (if charMatch'
             then list_all (\<lambda>char. char \<in> set (codePoints processedNonSpace)) (codePoints originalNonSpace)
             else False);
          st1 = st\<lparr>wordMatch := wordMatch', charMatch := charMatch', contentMatch := contentVerified\<rparr>
      in if \<not> wordMatch' \<or> \<not> charMatch' \<or> \<not> contentVerified
         then showWarning (js ''Content verification failed. Review output carefully.'') st1
         else st1)"

subsection \<open>The entry point\<close>

text \<open>
  The \<open>try\<close> block: the batches are processed and joined. Its result is the output or
  the error that was raised, with the state as it was then.
\<close>

definition tryBatches ::
  "(jsstring \<Rightarrow> app \<Rightarrow> (error + jsstring) \<times> app) \<Rightarrow> jsstring \<Rightarrow> app \<Rightarrow> (error + jsstring) \<times> app" where
  "tryBatches f input st =
     (let batches = splitIntoBatches input
      in case mapBatches f batches st of
           (Inl e, st1) \<Rightarrow> (Inl e, st1)
         | (Inr processedBatches, st1) \<Rightarrow> (newString (joinStr [10, 10] processedBatches), st1))"

text \<open>
  The \<open>catch\<close> branch displays the message of the error and the input. When this text
  is too long itself, the error leaves \<open>processText\<close> and the page stays as it is.
\<close>

definition catchError :: "error \<Rightarrow> jsstring \<Rightarrow> app \<Rightarrow> app" where
  "catchError e input st =
     (case newString (js ''Error: '' @ errorMessage e @ js ''\<newline>\<newline>Original text:\<newline>\<newline>'' @ input) of
        Inl e' \<Rightarrow> st
      | Inr message \<Rightarrow>
          showWarning (js ''Processing error occurred. Original text preserved.'')
            (st\<lparr>outputText := message\<rparr>))"

definition displayOutput :: "jsstring \<Rightarrow> jsstring \<Rightarrow> app \<Rightarrow> app" where
  "displayOutput input output st =
     (let st1 = st\<lparr>outputText := output, copyDisabled := False\<rparr>;
          st2 = updateOutputStats input output st1
      in verifyContentIntegrity input output st2)"

definition processText :: "jsstring \<Rightarrow> app \<Rightarrow> app" where
  "processText inputValue st =
     (let input = trim inputValue
      in if input = [] then st\<lparr>outputText := []\<rparr>
         else
           let st1 = st\<lparr>protectedMap := [], nextTokenId := 1\<rparr>
           in case tryBatches processBatch input st1 of
                (Inr output, st2) \<Rightarrow> displayOutput input output st2
              | (Inl e, st2) \<Rightarrow> catchError e input st2)"

section \<open>The pipeline with structure protection\<close>

text \<open>
  The second source file is a variant of the same class that also protects structural
  lines and multi-line blocks. \<open>splitIntoBatches\<close>, \<open>escapeRegExp\<close> and
  \<open>updateOutputStats\<close> are the same in both files; the functions of the variant whose
  names the first file uses too carry the suffix \<open>2\<close>.
\<close>

subsection \<open>Protection of blocks\<close>

text \<open>\<open>[\s\S]\<close> is any character, \<open>(?:\s[^>]*)?\<close> the optional attributes of a tag.\<close>

definition anyChar :: rx where
  "anyChar = Cls True []"

definition tagAttrs :: rx where
  "tagAttrs = opt (seqs [Cls False wsRanges, star (Cls True [one CHR ''>''])])"

definition codeBlockRegex :: rx where
  "codeBlockRegex = Grp 1 (Alt
     (seqs [str ''```'', star (Cls True [(96, 96), (10, 10)]), Chr 10, lazyStar anyChar, Chr 10, str ''```''])
     (seqs [str ''~~~'', star (Cls True [one CHR ''~'', (10, 10)]), Chr 10, lazyStar anyChar, Chr 10, str ''~~~'']))"

definition htmlBlockRegex :: rx where
  "htmlBlockRegex = Grp 1 (seqs [ch CHR ''<'',
     Grp 2 (alts (str ''pre'') [str ''code'', str ''div'', str ''section'', str ''article'',
              str ''header'', str ''footer'', str ''nav'', str ''aside'', str ''main'', str ''figure'']),
     tagAttrs, ch CHR ''>'', lazyStar anyChar, str ''</'', Bref 2, ch CHR ''>''])"

definition scriptStyleRegex :: rx where
  "scriptStyleRegex = Grp 1 (seqs [ch CHR ''<'',
     Grp 2 (Alt (str ''script'') (str ''style'')),
     tagAttrs, ch CHR ''>'', lazyStar anyChar, str ''</'', Bref 2, ch CHR ''>''])"

definition newToken :: "jsstring \<Rightarrow> jsstring \<Rightarrow> app \<Rightarrow> jsstring \<times> app" where
  "newToken prefix match st =
     (let token = prefix @ showNat (nextTokenId st) @ js ''__''
      in (token, st\<lparr>protectedMap := mapSet token match (protectedMap st),
                     nextTokenId := nextTokenId st + 1\<rparr>))"

definition protectMultiLineBlocks :: "jsstring \<Rightarrow> app \<Rightarrow> (error + jsstring) \<times> app" where
  "protectMultiLineBlocks text st =
     (let protectedText = tryReplace (newToken (js ''__MULTILINE_BLOCK_'')) (Inr text, st) (flagsG, codeBlockRegex);
          protectedText = tryReplace (newToken (js ''__HTML_BLOCK_'')) protectedText (flagsGI, htmlBlockRegex);
          protectedText = tryReplace (newToken (js ''__HTML_BLOCK_'')) protectedText (flagsGI, scriptStyleRegex)
      in protectedText)"

subsection \<open>Protection of structural lines and inline content\<close>

definition markdownHeadingRx :: rx where
  "markdownHeadingRx = seqs [Bol,
     Grp 1 (seqs [Rep 1 (Some 6) True (ch CHR ''#''), plus (Cls False wsRanges), star Dot]), Eol]"

definition htmlHeadingRx :: rx where
  "htmlHeadingRx = seqs [Bol,
     Grp 1 (seqs [ch CHR ''<'',
       Grp 2 (Alt (seqs [ch CHR ''h'', Cls False [(49, 54)]]) (str ''title'')),
       tagAttrs, ch CHR ''>'', lazyStar Dot, str ''</'', Bref 2, ch CHR ''>'']), Eol]"

definition listItemRx :: rx where
  "listItemRx = seqs [Bol, Grp 1 (star (Cls False wsRanges)),
     Grp 2 (alts (Cls False [one CHR ''*'', one CHR ''-'', one CHR ''+''])
              [seqs [plus (Cls False [(48, 57)]), ch CHR ''.''],
               seqs [Cls False [(97, 122)], ch CHR ''.'']]),
     plus (Cls False wsRanges), star Dot, Eol]"

definition htmlListItemRx :: rx where
  "htmlListItemRx = seqs [Bol, Grp 1 (star (Cls False wsRanges)), str ''<li'', tagAttrs,
     ch CHR ''>'', lazyStar Dot, str ''</li>'', Eol]"

definition blockquoteRx :: rx where
  "blockquoteRx = seqs [Bol, Grp 1 (seqs [ch CHR ''>'', plus (Cls False wsRanges), star Dot]), Eol]"

definition horizontalRuleRx :: rx where
  "horizontalRuleRx = seqs [Bol, Grp 1 (alts (str ''***'') [str ''---'', str ''___'']),
     star (Cls False wsRanges), Eol]"

definition tableRowRx :: rx where
  "tableRowRx = seqs [Bol, Grp 1 (seqs [ch CHR ''|'', star Dot, ch CHR ''|'']), Eol]"

definition htmlTagRx :: rx where
  "htmlTagRx = seqs [Bol,
     Grp 1 (seqs [ch CHR ''<'', opt (ch CHR ''/''), Cls False [(97, 122)],
                  star (Cls True [one CHR ''>'']), ch CHR ''>'']), Eol]"

definition structurePatterns :: "(flags \<times> rx) list" where
  "structurePatterns =
     [(flagsGM, markdownHeadingRx), (flagsGMI, htmlHeadingRx), (flagsGM, listItemRx),
      (flagsGMI, htmlListItemRx), (flagsGM, blockquoteRx), (flagsGM, horizontalRuleRx),
      (flagsGM, tableRowRx), (flagsGMI, htmlTagRx),
      (flagsGI, urlRx), (flagsGI, emailRx), (flagsG, inlineCodeRx), (flagsG, filePathRx)]"

definition protectStructureMatch :: "jsstring \<Rightarrow> app \<Rightarrow> jsstring \<times> app" where
  "protectStructureMatch match st =
     (if includesStr match (js ''__PROTECTED_'') \<or> includesStr match (js ''__STRUCTURED_'') \<or>
         includesStr match (js ''__MULTILINE_'') \<or> includesStr match (js ''__HTML_BLOCK_'')
      then (match, st)
      else newToken (js ''__STRUCTURED_'') match st)"

definition protectStructureAndContent :: "jsstring \<Rightarrow> app \<Rightarrow> (error + jsstring) \<times> app" where
  "protectStructureAndContent text st =
     foldl (tryReplace protectStructureMatch) (protectMultiLineBlocks text st) structurePatterns"

subsection \<open>Whitespace\<close>

text \<open>The test the line loops share: the line contains one of the three markers.\<close>

definition hasMarker :: "jsstring \<Rightarrow> bool" where
  "hasMarker line = (includesStr line (js ''__STRUCTURED_'') \<or>
     includesStr line (js ''__MULTILINE_BLOCK_'') \<or> includesStr line (js ''__HTML_BLOCK_''))"

text \<open>The class \<open>[\r\f\v\u00A0\u1680\u2000-\u200A\u2028\u2029\u202F\u205F\u3000]\<close>.\<close>

definition otherSpaces :: "(jschar \<times> jschar) list" where
  "otherSpaces = [(13, 13), (12, 12), (11, 11), (160, 160), (5760, 5760), (8192, 8202),
     (8232, 8232), (8233, 8233), (8239, 8239), (8287, 8287), (12288, 12288)]"

definition normalizeLine :: "jsstring \<Rightarrow> jsstring" where
  "normalizeLine line =
     (if \<not> hasMarker line
      then trimEnd (replaceStr flagsG (Cls False otherSpaces) [32]
                      (replaceStr flagsG (plus (Cls False [(32, 32), (9, 9)])) [32] line))
      else line)"

definition normalizeWhitespaceWithStructure :: "jsstring \<Rightarrow> jsstring" where
  "normalizeWhitespaceWithStructure text = joinStr [10] (map normalizeLine (splitChar 10 text))"

subsection \<open>Modes\<close>

text \<open>
  Each loop over the lines is a recursive function of the lines left, with the arrays the
  loop writes as accumulators.
\<close>

definition flushParagraph :: "jsstring list \<Rightarrow> jsstring list \<Rightarrow> jsstring list" where
  "flushParagraph processedLines currentParagraph =
     (if currentParagraph \<noteq> [] then processedLines @ [joinStr [32] currentParagraph] else processedLines)"

definition stripBlankLines :: "jsstring list \<Rightarrow> jsstring list" where
  "stripBlankLines ls = rev (dropWhile (\<lambda>l. l = []) (rev (dropWhile (\<lambda>l. l = []) ls)))"

fun modeALoop :: "jsstring list \<Rightarrow> jsstring list \<Rightarrow> jsstring list \<Rightarrow> jsstring list" where
  "modeALoop [] processedLines currentParagraph = flushParagraph processedLines currentParagraph"
| "modeALoop (line # rest) processedLines currentParagraph =
     (let trimmed = trim line; shouldPreserve = hasMarker line
      in if shouldPreserve \<or> trimmed = [] then
           let pl = flushParagraph processedLines currentParagraph;
               pl' = (if shouldPreserve then pl @ [line]
                      else if trimmed = [] \<and> pl \<noteq> [] then (if last pl \<noteq> [] then pl @ [[]] else pl)
                      else pl)
           in modeALoop rest pl' []
         else modeALoop rest processedLines (currentParagraph @ [trimmed]))"

definition processModeAWithStructure :: "jsstring \<Rightarrow> jsstring" where
  "processModeAWithStructure text =
     joinStr [10] (stripBlankLines (modeALoop (splitChar 10 text) [] []))"

fun modeBLoop :: "jsstring list \<Rightarrow> jsstring list \<Rightarrow> jsstring list \<Rightarrow> jsstring list" where
  "modeBLoop [] processedLines currentParagraph = flushParagraph processedLines currentParagraph"
| "modeBLoop (line # rest) processedLines currentParagraph =
     (let trimmed = trim line; isStructural = hasMarker line
      in if trimmed = [] then modeBLoop rest (flushParagraph processedLines currentParagraph @ [[]]) []
         else if isStructural then modeBLoop rest (flushParagraph processedLines currentParagraph @ [line]) []
         else modeBLoop rest processedLines (currentParagraph @ [trimmed]))"

fun dedupBlank :: "jsstring list \<Rightarrow> jsstring list \<Rightarrow> bool \<Rightarrow> jsstring list" where
  "dedupBlank [] result lastWasBlank = result"
| "dedupBlank (l # ls) result lastWasBlank =
     (if l = [] then dedupBlank ls (if \<not> lastWasBlank then result @ [[]] else result) True
      else dedupBlank ls (result @ [l]) False)"

definition processModeBWithStructure :: "jsstring \<Rightarrow> jsstring" where
  "processModeBWithStructure text =
     joinStr [10] (stripBlankLines (dedupBlank (modeBLoop (splitChar 10 text) [] []) [] False))"

fun modeCLoop :: "jsstring list \<Rightarrow> jsstring list \<Rightarrow> jsstring list \<Rightarrow> jsstring list" where
  "modeCLoop [] processedLines currentContent = flushParagraph processedLines currentContent"
| "modeCLoop (line # rest) processedLines currentContent =
     (let trimmed = trim line; shouldPreserve = hasMarker line
      in if shouldPreserve then modeCLoop rest (flushParagraph processedLines currentContent @ [line]) []
         else if trimmed \<noteq> [] then modeCLoop rest processedLines (currentContent @ [trimmed])
         else modeCLoop rest processedLines currentContent)"

fun modeCJoin :: "jsstring list \<Rightarrow> jsstring list \<Rightarrow> jsstring list" where
  "modeCJoin [] result = result"
| "modeCJoin (line # rest) result =
     (if hasMarker line then modeCJoin rest (result @ [line])
      else if trim line \<noteq> [] then
        (if result \<noteq> [] \<and> \<not> hasMarker (last result)
         then modeCJoin rest (butlast result @ [last result @ [32] @ trim line])
         else modeCJoin rest (result @ [trim line]))
      else modeCJoin rest result)"

definition processModeCWithStructure :: "jsstring \<Rightarrow> jsstring" where
  "processModeCWithStructure text = joinStr [10] (modeCJoin (modeCLoop (splitChar 10 text) [] []) [])"

subsection \<open>Final cleanup and restoration\<close>

fun cleanupLoop :: "jsstring list \<Rightarrow> jsstring list \<Rightarrow> jsstring list" where
  "cleanupLoop [] cleanedLines = cleanedLines"
| "cleanupLoop (line # rest) cleanedLines =
     (let isProtected = hasMarker line;
          line' = (if \<not> isProtected \<and> trim line \<noteq> []
                   then trim (replaceStr flagsG spacesRx [32] line) else line)
      in if line' \<noteq> [] \<or> isProtected then cleanupLoop rest (cleanedLines @ [line'])
         else cleanupLoop rest cleanedLines)"

function popBlankLines :: "jsstring list \<Rightarrow> jsstring list" where
  "popBlankLines cleanedLines =
     (if cleanedLines \<noteq> [] \<and> last cleanedLines = [] \<and> \<not> hasMarker (last cleanedLines)
      then popBlankLines (butlast cleanedLines) else cleanedLines)"
  by pat_completeness auto
termination
  by (relation "measure length") auto

declare popBlankLines.simps [simp del]

definition finalCleanupWithStructure :: "jsstring \<Rightarrow> jsstring" where
  "finalCleanupWithStructure text = joinStr [10] (popBlankLines (cleanupLoop (splitChar 10 text) []))"

text \<open>
  \<open>Array.prototype.sort\<close> is stable; with the comparator \<open>b.length - a.length\<close> a
  token goes behind the tokens before it that are at least as long.
\<close>

fun insertLongestFirst :: "jsstring \<Rightarrow> jsstring list \<Rightarrow> jsstring list" where
  "insertLongestFirst t [] = [t]"
| "insertLongestFirst t (u # us) =
     (if length u < length t then t # u # us else u # insertLongestFirst t us)"

definition sortLongestFirst :: "jsstring list \<Rightarrow> jsstring list" where
  "sortLongestFirst ts = foldl (\<lambda>sorted t. insertLongestFirst t sorted) [] ts"

definition restoreProtectedContent2 :: "jsstring \<Rightarrow> app \<Rightarrow> error + jsstring" where
  "restoreProtectedContent2 text st =
     foldl (\<lambda>restored token.
              let original = (case map_of (protectedMap st) token of
                                Some v \<Rightarrow> v | None \<Rightarrow> js ''undefined'')
              in tryRestore restored (token, original))
       (Inr text) (sortLongestFirst (map fst (protectedMap st)))"

subsection \<open>Batches and the entry point\<close>

definition processBatch2 :: "jsstring \<Rightarrow> app \<Rightarrow> (error + jsstring) \<times> app" where
  "processBatch2 batch st =
     (case protectStructureAndContent batch st of
        (Inl e, st1) \<Rightarrow> (Inl e, st1)
      | (Inr protectedText, st1) \<Rightarrow>
          (let normalized = normalizeWhitespaceWithStructure protectedText;
               processed =
                 (if mode st1 = js ''A'' then processModeAWithStructure normalized
                  else if mode st1 = js ''B'' then processModeBWithStructure normalized
                  else if mode st1 = js ''C'' then processModeCWithStructure normalized
                  else normalized)
           in case restoreProtectedContent2 processed st1 of
                Inl e \<Rightarrow> (Inl e, st1)
              | Inr restored \<Rightarrow> (Inr (finalCleanupWithStructure restored), st1)))"

text \<open>
  \<open>processText\<close> of the variant trims the input for the test only. The source file ends
  inside \<open>verifyContentIntegrity\<close>; the lines it has are those of script.js, and the
  function is taken to be the one of script.js.
\<close>

definition processText2 :: "jsstring \<Rightarrow> app \<Rightarrow> app" where
  "processText2 input st =
     (if trim input = [] then st\<lparr>outputText := []\<rparr>
      else
        let st1 = st\<lparr>protectedMap := [], nextTokenId := 1\<rparr>
        in case tryBatches processBatch2 input st1 of
             (Inr output, st2) \<Rightarrow> displayOutput input output st2
           | (Inl e, st2) \<Rightarrow> catchError e input st2)"
section \<open>The state of a new page\<close>

text \<open>
  The constructor selects mode \<open>A\<close> with an empty protection table and the counter at 1;
  the page starts as \<open>clearOutput\<close> leaves it: no output, the copy button disabled, the
  banner hidden, the statistics at zero and the three indicators showing the check mark.
\<close>

definition initialApp :: app where
  "initialApp = \<lparr>mode = js ''A'', protectedMap = [], nextTokenId = 1, outputText = [],
     copyDisabled = True, warning = None, outputWordCount = 0, outputCharCount = 0,
     lineBreaksRemoved = 0, wordMatch = True, charMatch = True, contentMatch = True\<rparr>"

section \<open>Descriptions used in the statements\<close>

text \<open>
  The functions of this section are not taken from the code: they say in plain list terms
  what a statement about the code claims. \<open>plainSegs\<close> replaces every match by a fixed
  string; \<open>starStates\<close> lists the end states of a greedy \<open>*\<close> over a class.
\<close>

fun plainSegs :: "jsstring \<Rightarrow> seg list \<Rightarrow> jsstring" where
  "plainSegs rep [] = []"
| "plainSegs rep (Lit c # segs) = c # plainSegs rep segs"
| "plainSegs rep (Mat m # segs) = rep @ plainSegs rep segs"

fun starStates :: "(jschar \<Rightarrow> bool) \<Rightarrow> jschar option \<Rightarrow> jsstring \<Rightarrow> caps \<Rightarrow> mstate list" where
  "starStates P p [] cs = [(p, [], cs)]"
| "starStates P p (c # t) cs =
     (if P c then starStates P (Some c) t cs @ [(p, c # t, cs)] else [(p, c # t, cs)])"

text \<open>
  \<open>collapse P rep\<close> replaces every maximal run of characters that satisfy \<open>P\<close> by
  \<open>rep\<close>; the flag says whether the character before belongs to a run.
\<close>

fun collapse :: "(jschar \<Rightarrow> bool) \<Rightarrow> jsstring \<Rightarrow> bool \<Rightarrow> jsstring \<Rightarrow> jsstring" where
  "collapse P rep inRun [] = []"
| "collapse P rep inRun (c # t) =
     (if P c then (if inRun then [] else rep) @ collapse P rep True t
      else c # collapse P rep False t)"

text \<open>The number of maximal runs of characters that satisfy \<open>P\<close>.\<close>

fun runStarts :: "(jschar \<Rightarrow> bool) \<Rightarrow> bool \<Rightarrow> jsstring \<Rightarrow> nat" where
  "runStarts P inRun [] = 0"
| "runStarts P inRun (c # cs) =
     (if P c then (if inRun then 0 else 1) + runStarts P True cs else runStarts P False cs)"

text \<open>
  The number of words of a string: the maximal runs of characters that are not whitespace.
  The flag says whether the character before belongs to a word.
\<close>

fun wordStarts :: "bool \<Rightarrow> jsstring \<Rightarrow> nat" where
  "wordStarts inWord [] = 0"
| "wordStarts inWord (c # cs) =
     (if isWhiteSpace c then wordStarts False cs
      else (if inWord then 0 else 1) + wordStarts True cs)"

definition endsWs :: "bool \<Rightarrow> jsstring \<Rightarrow> bool" where
  "endsWs d s = (if s = [] then d else isWhiteSpace (last s))"

text \<open>
  \<open>squeeze\<close> removes the empty lines at the front of a list of lines and keeps one
  of each run of empty lines; \<open>lastBlank\<close> says whether the last line is empty.
\<close>

definition lastBlank :: "bool \<Rightarrow> jsstring list \<Rightarrow> bool" where
  "lastBlank lb xs = (if xs = [] then lb else last xs = [])"

definition squeeze :: "jsstring list \<Rightarrow> jsstring list" where
  "squeeze xs = dropWhile (\<lambda>l. l = []) (dedupBlank xs [] False)"

text \<open>
  \<open>blankSep seen s\<close>: the text \<open>s\<close> has two line feeds with nothing but whitespace
  between them, a blank-line boundary; the flag says that a line feed has been read in the
  whitespace before \<open>s\<close>. \<open>sepState\<close> is the flag after a text has been read, and
  \<open>sepAt s\<close> says that a boundary starts at the first character of \<open>s\<close>.
\<close>

fun blankSep :: "bool \<Rightarrow> jsstring \<Rightarrow> bool" where
  "blankSep seen [] = False"
| "blankSep seen (c # t) =
     (if c = 10 then (seen \<or> blankSep True t)
      else if isWhiteSpace c then blankSep seen t
      else blankSep False t)"

fun sepState :: "bool \<Rightarrow> jsstring \<Rightarrow> bool" where
  "sepState seen [] = seen"
| "sepState seen (c # t) =
     sepState (if c = 10 then True else if isWhiteSpace c then seen else False) t"

definition sepAt :: "jsstring \<Rightarrow> bool" where
  "sepAt s = (case s of [] \<Rightarrow> False | c # r \<Rightarrow> c = 10 \<and> 10 \<in> set (takeWhile isWhiteSpace r))"

text \<open>\<open>nlNext\<close>: the end states of a match of one line feed.\<close>

fun nlNext :: "mstate \<Rightarrow> mstate list" where
  "nlNext (p, u, cs) = (case u of [] \<Rightarrow> [] | c # v \<Rightarrow> if c = 10 then [(Some c, v, cs)] else [])"

text \<open>
  A text made of batches: \<open>interleave b0 [(sep1, b1), \<dots>]\<close> is \<open>b0\<close>, then \<open>sep1\<close>,
  then \<open>b1\<close> and so on. \<open>batchText\<close> says that a text begins and ends with a
  character that is not whitespace and has no blank-line boundary; \<open>blankLines\<close> says
  that a text is a line feed, whitespace, and a line feed: one or more blank lines.
\<close>

fun interleave :: "jsstring \<Rightarrow> (jsstring \<times> jsstring) list \<Rightarrow> jsstring" where
  "interleave b0 [] = b0"
| "interleave b0 ((sep, b) # rest) = b0 @ sep @ interleave b rest"

definition batchText :: "jsstring \<Rightarrow> bool" where
  "batchText b = (b \<noteq> [] \<and> \<not> isWhiteSpace (hd b) \<and> \<not> isWhiteSpace (last b) \<and> \<not> blankSep False b)"

definition blankLines :: "jsstring \<Rightarrow> bool" where
  "blankLines sep = (case sep of [] \<Rightarrow> False
     | c # r \<Rightarrow> c = 10 \<and> r \<noteq> [] \<and> last r = 10 \<and> list_all isWhiteSpace r)"

text \<open>
  \<open>noMatch ps b\<close>: none of the patterns \<open>ps\<close> matches anywhere in \<open>b\<close>.
  \<open>isolated P prev s\<close>: no two neighbours in \<open>s\<close> satisfy \<open>P\<close>, nor does the first
  character when the flag says that the character before does.
  \<open>spaced s\<close>: \<open>s\<close> begins and ends with a character that is not whitespace and has no
  two spaces in a row.
\<close>

definition noMatch :: "(flags \<times> rx) list \<Rightarrow> jsstring \<Rightarrow> bool" where
  "noMatch ps b = list_all (\<lambda>(fl, r). scan fl r None b = map Lit b) ps"

fun isolated :: "(jschar \<Rightarrow> bool) \<Rightarrow> bool \<Rightarrow> jsstring \<Rightarrow> bool" where
  "isolated P prev [] = True"
| "isolated P prev (c # t) = ((P c \<longrightarrow> \<not> prev) \<and> isolated P (P c) t)"

definition spaced :: "jsstring \<Rightarrow> bool" where
  "spaced s = (s \<noteq> [] \<and> \<not> isWhiteSpace (hd s) \<and> \<not> isWhiteSpace (last s) \<and>
     isolated (\<lambda>c. c = 32) False s)"


text \<open>
  What a batch becomes when no protection rule applies to it: normalisation, the step of
  the mode and the final cleanup.
\<close>

definition batchOut :: "jsstring \<Rightarrow> jsstring \<Rightarrow> jsstring" where
  "batchOut m b =
     (let normalized = normalizeWhitespace b
      in finalCleanup
           (if m = js ''A'' then processModeA normalized
            else if m = js ''B'' then processModeB normalized
            else if m = js ''C'' then processModeC normalized
            else normalized))"

text \<open>
  A text with tokens is described by its pieces: \<open>Ch c\<close> is a character and \<open>Tk t\<close>
  an occurrence of the token \<open>t\<close>. \<open>isMarker t\<close> says that \<open>t\<close> has the shape of the
  tokens of the code: two underscores, a body, two underscores, where the body neither
  begins nor ends with an underscore, has an underscore, has no two underscores in a
  row and has no whitespace (\<open>__PROTECTED_7__\<close>, \<open>__MULTILINE_BLOCK_12__\<close>). \<open>resolve m p\<close> is the text
  that stands for the piece \<open>p\<close> when the tokens are looked up in the table \<open>m\<close>.
\<close>

datatype piece = Ch jschar | Tk jsstring

fun pieceText :: "piece \<Rightarrow> jsstring" where
  "pieceText (Ch c) = [c]"
| "pieceText (Tk t) = t"

definition flat :: "piece list \<Rightarrow> jsstring" where
  "flat ps = concat (map pieceText ps)"

definition marker :: "jsstring \<Rightarrow> jsstring" where
  "marker body = 95 # 95 # body @ [95, 95]"

definition goodBody :: "jsstring \<Rightarrow> bool" where
  "goodBody b = (b \<noteq> [] \<and> hd b \<noteq> 95 \<and> last b \<noteq> 95 \<and> 95 \<in> set b \<and>
     isolated (\<lambda>c. c = 95) False b \<and> list_all (\<lambda>c. \<not> isWhiteSpace c) b)"

definition isMarker :: "jsstring \<Rightarrow> bool" where
  "isMarker t = (let body = butlast (butlast (drop 2 t)) in t = marker body \<and> goodBody body)"

fun cleanPiece :: "piece \<Rightarrow> bool" where
  "cleanPiece (Ch c) = (c \<noteq> 95)"
| "cleanPiece (Tk t) = isMarker t"

fun resolve :: "(jsstring \<times> jsstring) list \<Rightarrow> piece \<Rightarrow> jsstring" where
  "resolve m (Ch c) = [c]"
| "resolve m (Tk t) = (case map_of m t of Some original \<Rightarrow> original | None \<Rightarrow> t)"


text \<open>
  \<open>roomFor m ps\<close>: the text of the pieces stays within the limit of the engine
  whichever of its tokens are replaced by their originals.
\<close>

definition roomFor :: "(jsstring \<times> jsstring) list \<Rightarrow> piece list \<Rightarrow> bool" where
  "roomFor m ps =
     (sum_list (map (\<lambda>p. max (length (pieceText p)) (length (resolve m p))) ps) \<le> maxStringLength)"

section \<open>What the state keeps through protection\<close>

lemma replaceFn_keeps:
  assumes "\<And>m s. g (snd (f m s)) = g s"
  shows "g (snd (replaceFn f segs st)) = g st"
proof (induction segs arbitrary: st)
  case Nil
  show ?case by simp
next
  case (Cons x segs)
  show ?case
  proof (cases x)
    case (Lit c)
    then show ?thesis using Cons[of st] by (simp add: split_beta)
  next
    case (Mat m)
    then show ?thesis using Cons[of "snd (f m st)"] assms[of m st] by (simp add: split_beta)
  qed
qed

lemma replaceWith_keeps:
  assumes "\<And>m s. g (snd (f m s)) = g s"
  shows "g (snd (replaceWith fl r f text st)) = g st"
  unfolding replaceWith_def using assms by (rule replaceFn_keeps[where g = g and f = f])

lemma foldl_replaceWith_keeps:
  assumes "\<And>m s. g (snd (f m s)) = g s"
  shows "g (snd (foldl (\<lambda>(t, s) (fl, r). replaceWith fl r f t s) (t0, st) ps)) = g st"
proof (induction ps arbitrary: t0 st)
  case Nil
  show ?case by simp
next
  case (Cons a ps)
  obtain fl r where a: "a = (fl, r)" by (cases a)
  obtain t' s' where step: "replaceWith fl r f t0 st = (t', s')" by (cases "replaceWith fl r f t0 st")
  have "g s' = g st" using replaceWith_keeps[where g = g and f = f, OF assms, of fl r t0 st] step by simp
  then show ?case using Cons[of t' s'] by (simp add: a step)
qed

lemma protectMatch_mode: "mode (snd (protectMatch m s)) = mode s"
  by (simp add: protectMatch_def Let_def)

lemma newToken_mode: "mode (snd (newToken prefix m s)) = mode s"
  by (simp add: newToken_def Let_def)

lemma protectStructureMatch_mode: "mode (snd (protectStructureMatch m s)) = mode s"
  by (simp add: protectStructureMatch_def newToken_mode)

section \<open>Rounds of replacement that may fail\<close>

lemma newString_cases: "newString s = Inr s \<or> newString s = Inl RangeError"
  by (simp add: newString_def)

lemma newString_Inr: "newString s = Inr r \<Longrightarrow> r = s \<and> length s \<le> maxStringLength"
  by (simp add: newString_def split: if_splits)

lemma newString_fits: "length s \<le> maxStringLength \<Longrightarrow> newString s = Inr s"
  by (simp add: newString_def)

lemma tryReplace_Inl: "tryReplace f (Inl e, st) p = (Inl e, st)"
  by (simp add: tryReplace_def)

lemma foldl_tryReplace_Inl: "foldl (tryReplace f) (Inl e, st) ps = (Inl e, st)"
  by (induction ps) (simp_all add: tryReplace_Inl)

lemma tryReplace_Inr:
  "tryReplace f (Inr t, st) (fl, r) =
     (newString (fst (replaceWith fl r f t st)), snd (replaceWith fl r f t st))"
  by (simp add: tryReplace_def split_beta)

text \<open>A loop that ends without an error has made the replacements one after the other.\<close>

lemma foldl_tryReplace_Inr:
  assumes "foldl (tryReplace f) (Inr t, st) ps = (Inr t', st')"
  shows "foldl (\<lambda>(t, s) (fl, r). replaceWith fl r f t s) (t, st) ps = (t', st')"
  using assms
proof (induction ps arbitrary: t st)
  case Nil
  then show ?case by simp
next
  case (Cons a ps)
  obtain fl r where a: "a = (fl, r)" by (cases a)
  obtain t1 s1 where step: "replaceWith fl r f t st = (t1, s1)" by (cases "replaceWith fl r f t st")
  have n: "newString t1 = Inr t1"
  proof (rule ccontr)
    assume "newString t1 \<noteq> Inr t1"
    then have "newString t1 = Inl RangeError" using newString_cases[of t1] by simp
    then have "foldl (tryReplace f) (Inr t, st) (a # ps) = (Inl RangeError, s1)"
      by (simp add: a tryReplace_Inr step foldl_tryReplace_Inl)
    then show False using Cons.prems by simp
  qed
  have "foldl (tryReplace f) (Inr t1, s1) ps = (Inr t', st')"
    using Cons.prems by (simp add: a tryReplace_Inr step n)
  then have "foldl (\<lambda>(t, s) (fl, r). replaceWith fl r f t s) (t1, s1) ps = (t', st')"
    by (rule Cons.IH)
  then show ?case by (simp add: a step)
qed

lemma tryReplace_keeps:
  assumes "\<And>m s. g (snd (f m s)) = g s"
  shows "g (snd (tryReplace f acc p)) = g (snd acc)"
proof -
  obtain x st where acc: "acc = (x, st)" by (cases acc)
  obtain fl r where p: "p = (fl, r)" by (cases p)
  show ?thesis
  proof (cases x)
    case (Inl e)
    then show ?thesis by (simp add: acc tryReplace_Inl)
  next
    case (Inr t)
    then show ?thesis
      using replaceWith_keeps[where g = g and f = f, OF assms, of fl r t st]
      by (simp add: acc p tryReplace_Inr)
  qed
qed

lemma foldl_tryReplace_keeps:
  assumes "\<And>m s. g (snd (f m s)) = g s"
  shows "g (snd (foldl (tryReplace f) acc ps)) = g (snd acc)"
proof (induction ps arbitrary: acc)
  case Nil
  show ?case by simp
next
  case (Cons a ps)
  have "g (snd (tryReplace f acc a)) = g (snd acc)"
    by (rule tryReplace_keeps[where g = g and f = f]) (rule assms)
  then show ?case using Cons[of "tryReplace f acc a"] by simp
qed

lemma protectContent_mode: "mode (snd (protectContent text st)) = mode st"
proof -
  have "mode (snd (foldl (tryReplace protectMatch) (Inr text, st) patterns)) = mode (snd (Inr text :: error + jsstring, st))"
    by (rule foldl_tryReplace_keeps[where g = mode and f = protectMatch]) (rule protectMatch_mode)
  then show ?thesis by (simp add: protectContent_def)
qed

lemma protectMultiLineBlocks_mode: "mode (snd (protectMultiLineBlocks text st)) = mode st"
proof -
  have k: "\<And>prefix acc p. mode (snd (tryReplace (newToken prefix) acc p)) = mode (snd acc)"
    by (rule tryReplace_keeps[where g = mode]) (rule newToken_mode)
  show ?thesis
    by (simp add: protectMultiLineBlocks_def Let_def k)
qed

lemma protectStructureAndContent_mode: "mode (snd (protectStructureAndContent t0 st)) = mode st"
proof -
  have "mode (snd (foldl (tryReplace protectStructureMatch) (protectMultiLineBlocks t0 st) structurePatterns))
        = mode (snd (protectMultiLineBlocks t0 st))"
    by (rule foldl_tryReplace_keeps[where g = mode and f = protectStructureMatch])
       (rule protectStructureMatch_mode)
  then show ?thesis by (simp add: protectStructureAndContent_def protectMultiLineBlocks_mode)
qed
section \<open>Facts about strings and patterns\<close>

declare ms.simps(7) [simp del]

lemma dropWhile_all_Nil: "\<forall>x\<in>set (dropWhile P xs). P x \<Longrightarrow> dropWhile P xs = []"
  by (metis hd_dropWhile list.set_sel(1))

lemma trim_empty_iff: "trim s = [] \<longleftrightarrow> list_all isWhiteSpace s"
proof
  assume "trim s = []"
  then have "dropWhile isWhiteSpace (rev (dropWhile isWhiteSpace (rev s))) = []"
    by (simp only: trim_def trimStart_def trimEnd_def)
  then have "\<forall>x\<in>set (rev (dropWhile isWhiteSpace (rev s))). isWhiteSpace x"
    by (simp only: dropWhile_eq_Nil_conv)
  then have "\<forall>x\<in>set (dropWhile isWhiteSpace (rev s)). isWhiteSpace x"
    by (simp only: set_rev)
  then have "dropWhile isWhiteSpace (rev s) = []" by (rule dropWhile_all_Nil)
  then have "\<forall>x\<in>set (rev s). isWhiteSpace x" by (simp only: dropWhile_eq_Nil_conv)
  then show "list_all isWhiteSpace s" by (simp only: set_rev list_all_iff)
next
  assume "list_all isWhiteSpace s"
  then have "\<forall>x\<in>set (rev s). isWhiteSpace x" by (simp only: set_rev list_all_iff)
  then have "dropWhile isWhiteSpace (rev s) = []" by (simp only: dropWhile_eq_Nil_conv)
  then show "trim s = []" by (simp only: trim_def trimStart_def trimEnd_def rev.simps dropWhile.simps)
qed

section \<open>Simple patterns\<close>

lemma getSubstitution_plain: "36 \<notin> set rep \<Longrightarrow> getSubstitution rep m pre post = rep"
  by (induction rep m pre post rule: getSubstitution.induct) auto

lemma replaceSegs_plain: "36 \<notin> set rep \<Longrightarrow> replaceSegs rep pre segs = plainSegs rep segs"
  by (induction rep pre segs rule: replaceSegs.induct) (auto simp: getSubstitution_plain)

lemma matchLen_Cls:
  "matchLen flagsG (Cls False rs) p s =
     (case s of [] \<Rightarrow> None | c # t \<Rightarrow> if inRanges rs c then Some 1 else None)"
  by (auto simp: matchLen_def flagsG_def inCls_def split: list.splits)

lemma matchLen_Chr:
  "matchLen flagsG (Chr a) p s =
     (case s of [] \<Rightarrow> None | c # t \<Rightarrow> if c = a then Some 1 else None)"
  by (auto simp: matchLen_def flagsG_def canon_def split: list.splits)

lemma scan_Cls:
  "scan flagsG (Cls False rs) p s = map (\<lambda>c. if inRanges rs c then Mat [c] else Lit c) s"
proof (induction s arbitrary: p)
  case Nil
  show ?case by (subst scan.simps) (simp add: matchLen_Cls)
next
  case (Cons c t)
  show ?case by (subst scan.simps) (simp add: matchLen_Cls Cons)
qed

lemma scan_Chr:
  "scan flagsG (Chr a) p s = map (\<lambda>c. if c = a then Mat [c] else Lit c) s"
proof (induction s arbitrary: p)
  case Nil
  show ?case by (subst scan.simps) (simp add: matchLen_Chr)
next
  case (Cons c t)
  show ?case by (subst scan.simps) (simp add: matchLen_Chr Cons)
qed

lemma replaceStr_Cls:
  "36 \<notin> set rep \<Longrightarrow>
   replaceStr flagsG (Cls False rs) rep s = concat (map (\<lambda>c. if inRanges rs c then rep else [c]) s)"
  by (induction s) (simp_all add: replaceStr_def replaceSegs_plain scan_Cls)

lemma replaceStr_Chr:
  "36 \<notin> set rep \<Longrightarrow>
   replaceStr flagsG (Chr a) rep s = concat (map (\<lambda>c. if c = a then rep else [c]) s)"
  by (induction s) (simp_all add: replaceStr_def replaceSegs_plain scan_Chr)

lemma ms_star_Cls:
  "ms flagsG (Rep 0 None True (Cls False rs)) (p, s, cs) = starStates (inRanges rs) p s cs"
proof (induction s arbitrary: p)
  case Nil
  show ?case by (subst ms.simps) (simp add: flagsG_def)
next
  case (Cons c t)
  show ?case by (subst ms.simps) (simp add: flagsG_def inCls_def Cons[unfolded flagsG_def])
qed

lemma starStates_hd:
  "\<exists>p' rest. starStates P p s cs = (p', dropWhile P s, cs) # rest"
  by (induction s arbitrary: p) (auto, metis append_Cons)

lemma matchLen_plus_Cls:
  "matchLen flagsG (plus (Cls False rs)) p s =
     (case s of [] \<Rightarrow> None
      | c # t \<Rightarrow> if inRanges rs c then Some (Suc (length (takeWhile (inRanges rs) t))) else None)"
proof (cases s)
  case Nil
  then show ?thesis by (simp add: matchLen_def plus_def ms.simps(7) flagsG_def)
next
  case (Cons c t)
  obtain p' rest where h: "starStates (inRanges rs) (Some c) t [] = (p', dropWhile (inRanges rs) t, []) # rest"
    using starStates_hd by blast
  have len: "length t - length (dropWhile (inRanges rs) t) = length (takeWhile (inRanges rs) t)"
    by (metis add_diff_cancel_right' length_append takeWhile_dropWhile_id)
  have le: "length (dropWhile (inRanges rs) t) \<le> length t"
    by (simp add: length_dropWhile_le)
  show ?thesis
    using h len le
    by (simp add: Cons matchLen_def plus_def ms.simps(7)[of _ "Suc 0"] ms_star_Cls[unfolded flagsG_def] inCls_def flagsG_def Suc_diff_le)
qed

lemma collapse_True_dropWhile: "collapse P rep True t = collapse P rep False (dropWhile P t)"
  by (induction t) auto

lemma scan_plus_Cls:
  "plainSegs rep (scan flagsG (plus (Cls False rs)) p s) = collapse (inRanges rs) rep False s"
proof (induction s arbitrary: p rule: length_induct)
  case (1 s)
  show ?case
  proof (cases s)
    case Nil
    then show ?thesis by (subst scan.simps) (simp add: matchLen_plus_Cls)
  next
    case (Cons c t)
    show ?thesis
    proof (cases "inRanges rs c")
      case True
      have d: "drop (Suc (length (takeWhile (inRanges rs) t))) (c # t) = dropWhile (inRanges rs) t"
        by (metis append_eq_conv_conj drop_Suc_Cons takeWhile_dropWhile_id)
      have "length (dropWhile (inRanges rs) t) < length s"
        using Cons by (simp add: length_dropWhile_le le_imp_less_Suc)
      then have ih: "\<And>p. plainSegs rep (scan flagsG (plus (Cls False rs)) p (dropWhile (inRanges rs) t))
                  = collapse (inRanges rs) rep False (dropWhile (inRanges rs) t)"
        using 1 by blast
      show ?thesis
        by (subst scan.simps) (simp add: Cons True matchLen_plus_Cls d ih collapse_True_dropWhile del: drop_Suc_Cons)
    next
      case False
      have ih: "\<And>p. plainSegs rep (scan flagsG (plus (Cls False rs)) p t) = collapse (inRanges rs) rep False t"
        using 1 Cons by simp
      show ?thesis
        by (subst scan.simps) (simp add: Cons False matchLen_plus_Cls ih)
    qed
  qed
qed

lemma replaceStr_plus_Cls:
  "36 \<notin> set rep \<Longrightarrow>
   replaceStr flagsG (plus (Cls False rs)) rep s = collapse (inRanges rs) rep False s"
  by (simp add: replaceStr_def replaceSegs_plain scan_plus_Cls)



lemma runStarts_True_dropWhile: "runStarts P True t = runStarts P False (dropWhile P t)"
  by (induction t) auto

lemma splitLoop_plus_Cls_length:
  "length (splitLoop flagsG (plus (Cls False rs)) p cur s) = Suc (runStarts (inRanges rs) False s)"
proof (induction s arbitrary: p cur rule: length_induct)
  case (1 s)
  show ?case
  proof (cases s)
    case Nil
    then show ?thesis by (subst splitLoop.simps) simp
  next
    case (Cons c t)
    show ?thesis
    proof (cases "inRanges rs c")
      case True
      have d: "drop (Suc (length (takeWhile (inRanges rs) t))) (c # t) = dropWhile (inRanges rs) t"
        by (metis append_eq_conv_conj drop_Suc_Cons takeWhile_dropWhile_id)
      have "length (dropWhile (inRanges rs) t) < length s"
        using Cons by (simp add: length_dropWhile_le le_imp_less_Suc)
      then have ih: "\<And>p cur. length (splitLoop flagsG (plus (Cls False rs)) p cur (dropWhile (inRanges rs) t))
                  = Suc (runStarts (inRanges rs) False (dropWhile (inRanges rs) t))"
        using 1 by blast
      show ?thesis
        by (subst splitLoop.simps) (simp add: Cons True matchLen_plus_Cls d ih runStarts_True_dropWhile del: drop_Suc_Cons)
    next
      case False
      have ih: "\<And>p cur. length (splitLoop flagsG (plus (Cls False rs)) p cur t) = Suc (runStarts (inRanges rs) False t)"
        using 1 Cons by simp
      show ?thesis
        by (subst splitLoop.simps) (simp add: Cons False matchLen_plus_Cls ih)
    qed
  qed
qed

lemma runs_words:
  "runStarts isWhiteSpace False t = wordStarts True t + (if endsWs False t then 1 else 0) \<and>
   wordStarts False t = runStarts isWhiteSpace True t + (if endsWs True t then 0 else 1)"
proof (induction t)
  case Nil
  show ?case by (simp add: endsWs_def)
next
  case (Cons c t)
  have e: "\<And>d. endsWs d (c # t) = endsWs (isWhiteSpace c) t"
    by (simp add: endsWs_def)
  show ?case using Cons by (auto simp: e)
qed

lemma wordStarts_dropWhile: "wordStarts False (dropWhile isWhiteSpace s) = wordStarts False s"
  by (induction s) auto

lemma wordStarts_append_ws: "list_all isWhiteSpace w \<Longrightarrow> wordStarts b (s @ w) = wordStarts b s"
proof (induction s arbitrary: b)
  case Nil
  then show ?case by (induction w arbitrary: b) auto
next
  case (Cons c s)
  then show ?case by simp
qed

lemma trimEnd_decomp: "\<exists>w. s = trimEnd s @ w \<and> list_all isWhiteSpace w"
proof -
  have "rev s = takeWhile isWhiteSpace (rev s) @ dropWhile isWhiteSpace (rev s)" by simp
  then have "s = rev (dropWhile isWhiteSpace (rev s)) @ rev (takeWhile isWhiteSpace (rev s))"
    by (metis rev_append rev_rev_ident)
  moreover have "list_all isWhiteSpace (rev (takeWhile isWhiteSpace (rev s)))"
    by (simp add: list_all_iff) (meson set_takeWhileD)
  ultimately show ?thesis unfolding trimEnd_def by blast
qed

lemma wordStarts_trim: "wordStarts False (trim s) = wordStarts False s"
proof -
  obtain w where w: "s = trimEnd s @ w" "list_all isWhiteSpace w" using trimEnd_decomp by blast
  have "wordStarts False (trim s) = wordStarts False (trimEnd s)"
    by (simp add: trim_def trimStart_def wordStarts_dropWhile)
  also have "\<dots> = wordStarts False (trimEnd s @ w)" using w(2) by (simp add: wordStarts_append_ws)
  finally show ?thesis using w(1) by simp
qed

lemma trim_ends:
  assumes "trim s \<noteq> []"
  shows "\<not> isWhiteSpace (hd (trim s)) \<and> \<not> isWhiteSpace (last (trim s))"
proof -
  have a: "\<not> isWhiteSpace (hd (trim s))"
    using assms unfolding trim_def trimStart_def by (rule hd_dropWhile)
  have ne: "dropWhile isWhiteSpace (rev s) \<noteq> []"
  proof
    assume "dropWhile isWhiteSpace (rev s) = []"
    then have "trim s = []"
      by (simp only: trim_def trimStart_def trimEnd_def rev.simps dropWhile.simps)
    with assms show False by simp
  qed
  have l: "\<not> isWhiteSpace (last (trimEnd s))"
    unfolding trimEnd_def using ne by (simp add: last_rev hd_dropWhile)
  have "\<exists>pre. trimEnd s = pre @ trim s"
    unfolding trim_def trimStart_def by (metis takeWhile_dropWhile_id)
  then have "last (trim s) = last (trimEnd s)" using assms by auto
  then show ?thesis using a l by simp
qed

lemma wordCount_wordStarts: "wordCount s = wordStarts False s"
proof (cases "trim s = []")
  case True
  then have "list_all isWhiteSpace s" by (simp add: trim_empty_iff)
  then have "wordStarts False ([] @ s) = wordStarts False []" by (rule wordStarts_append_ws)
  then show ?thesis using True by (simp add: wordCount_def)
next
  case False
  then obtain c t where ct: "trim s = c # t" by (cases "trim s") auto
  have e: "\<not> isWhiteSpace c" "\<not> isWhiteSpace (last (c # t))"
    using trim_ends[OF False] ct by auto
  have ew: "\<not> endsWs False t" using e(2) by (auto simp: endsWs_def)
  have "wordCount s = Suc (runStarts isWhiteSpace False (c # t))"
    using False ct splitLoop_plus_Cls_length[of wsRanges None "[]" "c # t"]
    by (simp add: wordCount_def splitRx_def isWhiteSpace_def[abs_def])
  also have "\<dots> = Suc (runStarts isWhiteSpace False t)" using e(1) by simp
  also have "\<dots> = Suc (wordStarts True t)" using runs_words[of t] ew by simp
  also have "\<dots> = wordStarts False (c # t)" using e(1) by simp
  finally show ?thesis using ct wordStarts_trim[of s] by simp
qed

lemma collapse_empty: "collapse P [] b s = filter (\<lambda>c. \<not> P c) s"
  by (induction s arbitrary: b) auto

lemma nonSpace_filter:
  "replaceStr flagsG (plus (Cls False wsRanges)) [] s = filter (\<lambda>c. \<not> isWhiteSpace c) s"
  by (simp add: replaceStr_plus_Cls collapse_empty isWhiteSpace_def[abs_def])


section \<open>The whitespace normalizers in list terms\<close>

lemma concat_map_single: "concat (map (\<lambda>c. if P c then [a] else [c]) s) = map (\<lambda>c. if P c then a else c) s"
  by (induction s) auto

lemma inRanges_space_tab: "inRanges [(32, 32), (9, 9)] = (\<lambda>c. c = 32 \<or> c = 9)"
  by (auto simp: fun_eq_iff)

lemma scan_no_match:
  assumes "\<And>p t. matchLen fl r p t = None"
  shows "scan fl r p s = map Lit s"
proof (induction s arbitrary: p)
  case Nil
  show ?case by (subst scan.simps) (simp add: assms)
next
  case (Cons c t)
  show ?case by (subst scan.simps) (simp add: assms Cons)
qed

lemma plainSegs_Lit: "plainSegs rep (map Lit s) = s"
  by (induction s) auto

lemma scan_Chr_absent:
  "a \<notin> set s \<Longrightarrow> scan flagsG (Seq (Chr a) r) p s = map Lit s"
proof (induction s arbitrary: p)
  case Nil
  show ?case by (subst scan.simps) (simp add: matchLen_def flagsG_def)
next
  case (Cons c t)
  then show ?case by (subst scan.simps) (simp add: matchLen_def flagsG_def canon_def)
qed

lemma replaceStr_Chr_absent:
  "a \<notin> set s \<Longrightarrow> 36 \<notin> set rep \<Longrightarrow> replaceStr flagsG (Chr a) rep s = s"
  by (induction s) (auto simp: replaceStr_Chr)

lemma collapse_set: "set (collapse P rep b s) \<subseteq> set s \<union> set rep"
  by (induction s arbitrary: b) auto

lemma normalizeLine_spec:
  "normalizeLine line =
     (if hasMarker line then line
      else trimEnd (map (\<lambda>c. if inRanges otherSpaces c then 32 else c)
                     (collapse (\<lambda>c. c = 32 \<or> c = 9) [32] False line)))"
  by (simp add: normalizeLine_def replaceStr_plus_Cls replaceStr_Cls concat_map_single inRanges_space_tab)

lemma normalizeWhitespace_spec:
  "normalizeWhitespace t =
     collapse (\<lambda>c. c = 32) [32] False (map (\<lambda>c. if inRanges unicodeSpaces c then 32 else c) t)"
proof -
  let ?m = "map (\<lambda>c. if inRanges unicodeSpaces c then 32 else c) t"
  have r: "inRanges [(32, 32)] = (\<lambda>c. c = 32)" by (auto simp: fun_eq_iff)
  have no13: "13 \<notin> set ?m" by (auto simp: unicodeSpaces_def)
  have c13: "13 \<notin> set (collapse (\<lambda>c. c = 32) [32] False ?m)"
    using no13 collapse_set[of "\<lambda>c. c = 32" "[32]" False ?m] by auto
  have s1: "replaceStr flagsG (Cls False unicodeSpaces) [32] t = ?m"
    by (simp add: replaceStr_Cls concat_map_single)
  have s2: "replaceStr flagsG spacesRx [32] ?m = collapse (\<lambda>c. c = 32) [32] False ?m"
    by (simp add: spacesRx_def replaceStr_plus_Cls r)
  have s3: "\<And>u. 13 \<notin> set u \<Longrightarrow> replaceStr flagsG (seqs [Chr 13, Chr 10]) [10] u = u"
    by (simp add: replaceStr_def seqs_def scan_Chr_absent replaceSegs_plain plainSegs_Lit)
  have s4: "\<And>u. 13 \<notin> set u \<Longrightarrow> replaceStr flagsG (Chr 13) [10] u = u"
    by (simp add: replaceStr_Chr_absent)
  show ?thesis
    unfolding normalizeWhitespace_def Let_def s1 s2 using c13 by (simp add: s3 s4)
qed

section \<open>The two paragraph modes of the variant with structure protection\<close>

lemma startsWith_set: "startsWith s sub \<Longrightarrow> set sub \<subseteq> set s"
  by (induction s sub rule: startsWith.induct) auto

lemma includesStr_set: "includesStr s sub \<Longrightarrow> set sub \<subseteq> set s"
proof (induction s sub rule: includesStr.induct)
  case (1 sub)
  then show ?case by simp
next
  case (2 c cs sub)
  show ?case
  proof (cases "startsWith (c # cs) sub")
    case True
    then show ?thesis by (rule startsWith_set)
  next
    case False
    then have "set sub \<subseteq> set cs" using 2 by simp
    then show ?thesis by auto
  qed
qed

lemma hasMarker_underscore: "hasMarker line \<Longrightarrow> 95 \<in> set line"
  by (auto simp: hasMarker_def js_def dest!: includesStr_set)

lemma hasMarker_trim: "hasMarker line \<Longrightarrow> trim line \<noteq> []"
proof
  assume h: "hasMarker line" and "trim line = []"
  then have "list_all isWhiteSpace line" by (simp add: trim_empty_iff)
  moreover have "95 \<in> set line" using h by (rule hasMarker_underscore)
  ultimately have "isWhiteSpace 95" by (simp add: list_all_iff)
  then show False by (simp add: isWhiteSpace_def wsRanges_def)
qed

lemma hasMarker_nonempty: "hasMarker line \<Longrightarrow> line \<noteq> []"
  using hasMarker_underscore by fastforce

lemma joinStr_nonempty: "xs \<noteq> [] \<Longrightarrow> hd xs \<noteq> [] \<Longrightarrow> joinStr sep xs \<noteq> []"
  by (induction sep xs rule: joinStr.induct) auto

lemma dedupBlank_acc: "dedupBlank xs res lb = res @ dedupBlank xs [] lb"
proof (induction xs arbitrary: res lb)
  case Nil
  show ?case by simp
next
  case (Cons x xs)
  show ?case
    using Cons[of "res @ [[]]" True] Cons[of res True] Cons[of "res @ [x]" False]
          Cons[of "[[]]" True] Cons[of "[]" True] Cons[of "[x]" False]
    by auto
qed

lemma lastBlank_Cons: "lastBlank b (y # xs) = lastBlank (y = []) xs"
  by (simp add: lastBlank_def)

lemma dedupBlank_snoc:
  "dedupBlank (xs @ [l]) [] lb =
     dedupBlank xs [] lb @ (if l \<noteq> [] then [l] else if lastBlank lb xs then [] else [[]])"
proof (induction xs arbitrary: lb)
  case Nil
  show ?case by (simp add: lastBlank_def)
next
  case (Cons x xs)
  show ?case
  proof (cases "x = []")
    case True
    show ?thesis
      using Cons[of True] dedupBlank_acc[of "xs @ [l]" "[[]]" True] dedupBlank_acc[of xs "[[]]" True]
      by (cases "l = []") (auto simp: True lastBlank_Cons)
  next
    case False
    show ?thesis
      using Cons[of False] dedupBlank_acc[of "xs @ [l]" "[x]" False] dedupBlank_acc[of xs "[x]" False]
      by (cases "l = []") (auto simp: False lastBlank_Cons)
  qed
qed

lemma dedupBlank_last_eq:
  "xs \<noteq> [] \<Longrightarrow> last xs \<noteq> [] \<Longrightarrow> dedupBlank xs [] lb \<noteq> [] \<and> last (dedupBlank xs [] lb) = last xs"
proof (induction xs arbitrary: lb rule: rev_induct)
  case Nil
  then show ?case by simp
next
  case (snoc l xs)
  then show ?case by (simp add: dedupBlank_snoc)
qed

lemma dedupBlank_last_blank:
  "xs \<noteq> [] \<Longrightarrow> last xs = [] \<Longrightarrow> dedupBlank xs [] False \<noteq> [] \<and> last (dedupBlank xs [] False) = []"
proof (induction xs rule: rev_induct)
  case Nil
  then show ?case by simp
next
  case (snoc l xs)
  show ?case
  proof (cases "xs = []")
    case True
    then show ?thesis using snoc by simp
  next
    case False
    show ?thesis
    proof (cases "last xs = []")
      case True
      then show ?thesis using snoc False by (simp add: dedupBlank_snoc lastBlank_def)
    next
      case b: False
      then show ?thesis using snoc False by (simp add: dedupBlank_snoc lastBlank_def)
    qed
  qed
qed

lemma squeeze_snoc_line: "l \<noteq> [] \<Longrightarrow> squeeze (xs @ [l]) = squeeze xs @ [l]"
  by (simp add: squeeze_def dedupBlank_snoc dropWhile_append)

lemma squeeze_snoc_blank:
  "squeeze (xs @ [[]]) = (if squeeze xs \<noteq> [] \<and> last (squeeze xs) \<noteq> [] then squeeze xs @ [[]] else squeeze xs)"
proof (cases "xs = []")
  case True
  then show ?thesis by (simp add: squeeze_def)
next
  case ne: False
  show ?thesis
  proof (cases "last xs = []")
    case True
    have d: "dedupBlank xs [] False \<noteq> [] \<and> last (dedupBlank xs [] False) = []"
      using ne True by (rule dedupBlank_last_blank)
    have "squeeze xs \<noteq> [] \<Longrightarrow> last (squeeze xs) = []"
      using d unfolding squeeze_def
      by (metis append_Nil2 last_appendR takeWhile_dropWhile_id)
    then show ?thesis using ne True by (auto simp: squeeze_def dedupBlank_snoc lastBlank_def)
  next
    case False
    have d: "dedupBlank xs [] False \<noteq> [] \<and> last (dedupBlank xs [] False) = last xs"
      using ne False by (rule dedupBlank_last_eq)
    have nb: "\<not> (\<forall>x\<in>set (dedupBlank xs [] False). x = [])"
      using d False by (metis last_in_set)
    have sq: "squeeze xs \<noteq> [] \<and> last (squeeze xs) = last xs"
      using d nb unfolding squeeze_def
      by (metis (mono_tags, lifting) dropWhile_eq_Nil_conv last_appendR takeWhile_dropWhile_id)
    show ?thesis
      using ne False sq nb
      by (simp add: squeeze_def dedupBlank_snoc lastBlank_def dropWhile_append)
  qed
qed

lemma flush_squeeze:
  assumes "\<forall>x\<in>set cp. x \<noteq> []"
  shows "squeeze (flushParagraph pl cp) = flushParagraph (squeeze pl) cp"
proof (cases "cp = []")
  case True
  then show ?thesis by (simp add: flushParagraph_def)
next
  case False
  then have "hd cp \<noteq> []" using assms by (cases cp) auto
  then have "joinStr [32] cp \<noteq> []" using False by (simp add: joinStr_nonempty)
  then show ?thesis using False by (simp add: flushParagraph_def squeeze_snoc_line)
qed

lemma modeA_modeB_loops:
  assumes "\<forall>x\<in>set cp. x \<noteq> []"
  shows "modeALoop ls (squeeze pl) cp = squeeze (modeBLoop ls pl cp)"
  using assms
proof (induction ls arbitrary: pl cp)
  case Nil
  then show ?case by (simp add: flush_squeeze)
next
  case (Cons line ls)
  have fl: "squeeze (flushParagraph pl cp) = flushParagraph (squeeze pl) cp"
    using Cons.prems by (rule flush_squeeze)
  show ?case
  proof (cases "hasMarker line")
    case True
    have t: "trim line \<noteq> []" using True by (rule hasMarker_trim)
    have n: "line \<noteq> []" using True by (rule hasMarker_nonempty)
    have "squeeze (flushParagraph pl cp @ [line]) = flushParagraph (squeeze pl) cp @ [line]"
      using n fl by (simp add: squeeze_snoc_line)
    then show ?thesis
      using True t Cons.IH[of "[]" "flushParagraph pl cp @ [line]"] by (simp add: Let_def)
  next
    case False
    show ?thesis
    proof (cases "trim line = []")
      case True
      have "squeeze (flushParagraph pl cp @ [[]]) =
              (if flushParagraph (squeeze pl) cp \<noteq> [] \<and> last (flushParagraph (squeeze pl) cp) \<noteq> []
               then flushParagraph (squeeze pl) cp @ [[]] else flushParagraph (squeeze pl) cp)"
        using fl by (simp add: squeeze_snoc_blank)
      then show ?thesis
        using False True Cons.IH[of "[]" "flushParagraph pl cp @ [[]]"] by (auto simp: Let_def)
    next
      case t: False
      have "\<forall>x\<in>set (cp @ [trim line]). x \<noteq> []" using Cons.prems t by simp
      then show ?thesis
        using False t Cons.IH[of "cp @ [trim line]" pl] by (simp add: Let_def)
    qed
  qed
qed

lemma modeA_eq_modeB: "processModeAWithStructure t = processModeBWithStructure t"
proof -
  have "modeALoop (splitChar 10 t) (squeeze []) [] = squeeze (modeBLoop (splitChar 10 t) [] [])"
    by (rule modeA_modeB_loops) simp
  then have "modeALoop (splitChar 10 t) [] [] = squeeze (modeBLoop (splitChar 10 t) [] [])"
    by (simp add: squeeze_def)
  then show ?thesis
    by (simp add: processModeAWithStructure_def processModeBWithStructure_def stripBlankLines_def squeeze_def)
qed

section \<open>Blank-line boundaries, batches and the two paragraph modes of script.js\<close>

lemma blankSep_append: "blankSep b (x @ y) = (blankSep b x \<or> blankSep (sepState b x) y)"
  by (induction x arbitrary: b) auto

lemma blankSep_mono: "blankSep b y \<Longrightarrow> (b \<Longrightarrow> b') \<Longrightarrow> blankSep b' y"
  by (induction y arbitrary: b b') (auto split: if_splits)

lemma ws10: "isWhiteSpace 10"
  by (simp add: isWhiteSpace_def wsRanges_def)

lemma blankSep_True_takeWhile: "10 \<in> set (takeWhile isWhiteSpace r) \<Longrightarrow> blankSep True r"
  by (induction r) (auto split: if_splits)

lemma sepAt_blankSep: "sepAt s \<Longrightarrow> blankSep b (a @ s)"
  by (cases s) (auto simp: sepAt_def blankSep_append blankSep_True_takeWhile)

lemma blankSep_sepAt:
  "blankSep b x \<Longrightarrow> (b \<and> 10 \<in> set (takeWhile isWhiteSpace x)) \<or> (\<exists>n. sepAt (drop n x))"
proof (induction x arbitrary: b)
  case Nil
  then show ?case by simp
next
  case (Cons c t)
  show ?case
  proof (cases "c = 10")
    case True
    show ?thesis
    proof (cases b)
      case True
      then show ?thesis using \<open>c = 10\<close> ws10 by simp
    next
      case False
      then have "blankSep True t" using Cons.prems \<open>c = 10\<close> by simp
      then have "10 \<in> set (takeWhile isWhiteSpace t) \<or> (\<exists>n. sepAt (drop n t))"
        using Cons.IH[of True] by simp
      then show ?thesis
      proof
        assume "10 \<in> set (takeWhile isWhiteSpace t)"
        then have "sepAt (drop 0 (c # t))" using \<open>c = 10\<close> by (simp add: sepAt_def)
        then show ?thesis by blast
      next
        assume "\<exists>n. sepAt (drop n t)"
        then obtain n where "sepAt (drop (Suc n) (c # t))" by auto
        then show ?thesis by blast
      qed
    qed
  next
    case False
    show ?thesis
    proof (cases "isWhiteSpace c")
      case True
      then have "blankSep b t" using Cons.prems False by simp
      then have "(b \<and> 10 \<in> set (takeWhile isWhiteSpace t)) \<or> (\<exists>n. sepAt (drop n t))"
        by (rule Cons.IH)
      then show ?thesis
      proof
        assume "b \<and> 10 \<in> set (takeWhile isWhiteSpace t)"
        then show ?thesis using True by simp
      next
        assume "\<exists>n. sepAt (drop n t)"
        then obtain n where "sepAt (drop (Suc n) (c # t))" by auto
        then show ?thesis by blast
      qed
    next
      case nws: False
      then have "blankSep False t" using Cons.prems False by simp
      then have "\<exists>n. sepAt (drop n t)" using Cons.IH[of False] by simp
      then obtain n where "sepAt (drop (Suc n) (c # t))" by auto
      then show ?thesis by blast
    qed
  qed
qed

lemma blankSep_iff: "blankSep False x \<longleftrightarrow> (\<exists>n. sepAt (drop n x))"
proof
  assume "blankSep False x"
  then show "\<exists>n. sepAt (drop n x)" using blankSep_sepAt[of False x] by simp
next
  assume "\<exists>n. sepAt (drop n x)"
  then obtain n where "sepAt (drop n x)" by blast
  then have "blankSep False (take n x @ drop n x)" by (rule sepAt_blankSep)
  then show "blankSep False x" by simp
qed

lemma sepAt_append: "sepAt u \<Longrightarrow> sepAt (u @ s)"
proof (cases u)
  case Nil
  assume "sepAt u" then show ?thesis using Nil by (simp add: sepAt_def)
next
  case (Cons c r)
  assume "sepAt u"
  then have a: "c = 10" "10 \<in> set (takeWhile isWhiteSpace r)" using Cons by (auto simp: sepAt_def)
  have "set (takeWhile isWhiteSpace r) \<subseteq> set (takeWhile isWhiteSpace (r @ s))"
    by (induction r) auto
  then show ?thesis using a Cons by (auto simp: sepAt_def)
qed

lemma flagsG_ic: "ignoreCase flagsG = False"
  by (simp add: flagsG_def)

lemma nlNext_ms: "ms flagsG (Seq (Chr 10) rx.Eps) = nlNext"
proof (rule ext)
  fix x :: mstate
  show "ms flagsG (Seq (Chr 10) rx.Eps) x = nlNext x"
    by (cases x) (auto simp: flagsG_ic canon_def split: list.splits)
qed

lemma nlNext_star:
  "P 10 \<Longrightarrow> (concat (map nlNext (starStates P p r cs)) = []) \<longleftrightarrow> 10 \<notin> set (takeWhile P r)"
proof (induction r arbitrary: p)
  case Nil
  show ?case by simp
next
  case (Cons c t)
  show ?case using Cons.IH[OF Cons.prems, of "Some c"] Cons.prems by auto
qed

lemma nlNext_star_len:
  "x \<in> set (concat (map nlNext (starStates P p r cs))) \<Longrightarrow> length (fst (snd x)) < length r"
proof (induction r arbitrary: p)
  case Nil
  then show ?case by simp
next
  case (Cons c t)
  then show ?case by (fastforce split: if_splits)
qed

lemma ms_blankLine:
  "ms flagsG blankLineRx (p, s, []) =
     (case s of [] \<Rightarrow> []
      | c # r \<Rightarrow> if c = 10 then concat (map nlNext (starStates isWhiteSpace (Some 10) r [])) else [])"
proof -
  have i: "inRanges wsRanges = isWhiteSpace" by (rule ext) (simp add: isWhiteSpace_def)
  show ?thesis
    by (cases s) (simp_all add: blankLineRx_def seqs_def star_def ms_star_Cls nlNext_ms i flagsG_ic canon_def)
qed

lemma matchLen_blankLine_None: "matchLen flagsG blankLineRx p s = None \<longleftrightarrow> \<not> sepAt s"
proof (cases s)
  case Nil
  then show ?thesis by (simp add: matchLen_def ms_blankLine sepAt_def)
next
  case (Cons c r)
  define L where "L = concat (map nlNext (starStates isWhiteSpace (Some 10) r []))"
  have k: "(L = []) = (10 \<notin> set (takeWhile isWhiteSpace r))"
    unfolding L_def using ws10 by (rule nlNext_star[where P = isWhiteSpace])
  have m: "matchLen flagsG blankLineRx p (c # r) =
             (if c = 10 then (case L of [] \<Rightarrow> None | (_, s', _) # _ \<Rightarrow> Some (length (c # r) - length s')) else None)"
    unfolding matchLen_def ms_blankLine L_def by simp
  show ?thesis using k by (cases L) (auto simp: m sepAt_def Cons)
qed

lemma matchLen_blankLine_pos: "matchLen flagsG blankLineRx p s = Some n \<Longrightarrow> 0 < n"
proof (cases s)
  case Nil
  assume "matchLen flagsG blankLineRx p s = Some n"
  then show ?thesis using Nil by (simp add: matchLen_def ms_blankLine)
next
  case (Cons c r)
  assume m: "matchLen flagsG blankLineRx p s = Some n"
  then obtain x xs where x: "concat (map nlNext (starStates isWhiteSpace (Some 10) r [])) = x # xs"
    and n: "n = length s - length (fst (snd x))"
    using Cons by (auto simp: matchLen_def ms_blankLine split: list.splits if_splits)
  have "x \<in> set (concat (map nlNext (starStates isWhiteSpace (Some 10) r [])))" using x by simp
  then have "length (fst (snd x)) < length r" by (rule nlNext_star_len)
  then show ?thesis using n Cons by simp
qed

lemma splitLoop_no_match:
  assumes "\<And>n q. matchLen fl r q (drop n s) = None"
  shows "splitLoop fl r p cur s = [cur @ s]"
  using assms
proof (induction s arbitrary: p cur)
  case Nil
  show ?case by (subst splitLoop.simps) simp
next
  case (Cons c t)
  have h: "matchLen fl r p (c # t) = None" using Cons.prems[of p 0] by simp
  have t: "\<And>n q. matchLen fl r q (drop n t) = None" using Cons.prems[of _ "Suc _"] by simp
  show ?case
    by (subst splitLoop.simps) (simp add: h Cons.IH[OF t])
qed

lemma splitRx_blankLine_single:
  assumes "\<not> blankSep False t"
  shows "splitRx flagsG blankLineRx t = [t]"
proof -
  have n: "\<And>n q. matchLen flagsG blankLineRx q (drop n t) = None"
    using assms by (simp add: matchLen_blankLine_None blankSep_iff)
  show ?thesis
  proof (cases "t = []")
    case True
    then show ?thesis using n[of None 0] by (simp add: splitRx_def)
  next
    case False
    then show ?thesis using splitLoop_no_match[OF n, of None "[]"] by (simp add: splitRx_def)
  qed
qed

lemma splitLoop_blankLine_pieces:
  assumes "\<forall>n < length cur. \<not> sepAt (drop n cur @ s)"
  shows "\<forall>piece \<in> set (splitLoop flagsG blankLineRx p cur s). \<not> blankSep False piece"
  using assms
proof (induction s arbitrary: p cur rule: length_induct)
  case (1 s)
  have piece: "\<not> blankSep False cur"
  proof
    assume "blankSep False cur"
    then obtain n where n: "sepAt (drop n cur)" by (auto simp: blankSep_iff)
    then have "n < length cur" by (cases "n < length cur") (auto simp: sepAt_def)
    moreover have "sepAt (drop n cur @ s)" using n by (rule sepAt_append)
    ultimately show False using 1(2) by blast
  qed
  show ?case
  proof (cases s)
    case Nil
    then show ?thesis using piece by (subst splitLoop.simps) simp
  next
    case (Cons c t)
    show ?thesis
    proof (cases "matchLen flagsG blankLineRx p s")
      case None
      then have ns: "\<not> sepAt (c # t)" using Cons by (simp add: matchLen_blankLine_None)
      have inv: "\<forall>n < length (cur @ [c]). \<not> sepAt (drop n (cur @ [c]) @ t)"
      proof (intro allI impI)
        fix n assume "n < length (cur @ [c])"
        show "\<not> sepAt (drop n (cur @ [c]) @ t)"
        proof (cases "n < length cur")
          case True
          then show ?thesis using 1(2) Cons by simp
        next
          case False
          then show ?thesis using ns \<open>n < length (cur @ [c])\<close> by simp
        qed
      qed
      have len: "length t < length s" using Cons by simp
      have "\<forall>piece \<in> set (splitLoop flagsG blankLineRx (Some c) (cur @ [c]) t). \<not> blankSep False piece"
        using 1(1)[rule_format, OF len inv[rule_format]] by blast
      then show ?thesis using None Cons by (subst splitLoop.simps) simp
    next
      case (Some n)
      have pos: "0 < n" using Some by (rule matchLen_blankLine_pos)
      have "length (drop n s) < length s" using pos Cons by simp
      moreover have "\<forall>k < length ([]::jsstring). \<not> sepAt (drop k [] @ drop n s)" by simp
      ultimately have "\<forall>piece \<in> set (splitLoop flagsG blankLineRx (Some (last (take n s))) [] (drop n s)).
                         \<not> blankSep False piece"
        using 1(1) by blast
      then show ?thesis using Some Cons pos piece by (subst splitLoop.simps) simp
    qed
  qed
qed

lemma splitIntoBatches_no_blank:
  "batch \<in> set (splitIntoBatches t) \<Longrightarrow> \<not> blankSep False batch"
proof -
  assume b: "batch \<in> set (splitIntoBatches t)"
  show ?thesis
  proof (cases "t = []")
    case True
    then show ?thesis using b by (auto simp: splitIntoBatches_def splitRx_def split: if_splits)
  next
    case False
    have "\<forall>piece \<in> set (splitLoop flagsG blankLineRx None [] t). \<not> blankSep False piece"
      by (rule splitLoop_blankLine_pieces) simp
    then show ?thesis using b False by (auto simp: splitIntoBatches_def splitRx_def)
  qed
qed

lemma blankSep_token:
  assumes "tok \<noteq> []" and "\<forall>c\<in>set tok. \<not> isWhiteSpace c"
  shows "blankSep b tok = False \<and> sepState b tok = False"
  using assms
proof (induction tok arbitrary: b)
  case Nil
  then show ?case by simp
next
  case (Cons c t)
  have c: "c \<noteq> 10" "\<not> isWhiteSpace c" using Cons.prems ws10 by auto
  show ?case
  proof (cases "t = []")
    case True
    then show ?thesis using c by simp
  next
    case False
    then show ?thesis using c Cons.IH[of False] Cons.prems by simp
  qed
qed

lemma replaceFn_blankSep:
  assumes "\<And>m s. fst (f m s) = m \<or> (fst (f m s) \<noteq> [] \<and> (\<forall>c\<in>set (fst (f m s)). \<not> isWhiteSpace c))"
  shows "blankSep b (fst (replaceFn f segs st)) \<Longrightarrow> blankSep b (segsText segs)"
proof (induction segs arbitrary: b st)
  case Nil
  then show ?case by (simp add: segsText_def)
next
  case (Cons x segs)
  show ?case
  proof (cases x)
    case (Lit c)
    have ih: "\<And>b'. blankSep b' (fst (replaceFn f segs st)) \<Longrightarrow> blankSep b' (segsText segs)"
      by (rule Cons.IH)
    show ?thesis using Cons.prems ih
      by (auto simp: Lit segsText_def split_beta split: if_splits)
  next
    case (Mat m)
    let ?x = "fst (f m st)" and ?st = "snd (f m st)"
    have ih: "\<And>b'. blankSep b' (fst (replaceFn f segs ?st)) \<Longrightarrow> blankSep b' (segsText segs)"
      by (rule Cons.IH)
    have p: "blankSep b ?x \<or> blankSep (sepState b ?x) (fst (replaceFn f segs ?st))"
      using Cons.prems by (simp add: Mat split_beta blankSep_append)
    have goal: "segsText (x # segs) = m @ segsText segs" by (simp add: Mat segsText_def)
    show ?thesis
    proof (cases "?x = m")
      case True
      then show ?thesis using p ih by (auto simp: goal blankSep_append)
    next
      case False
      then have tk: "?x \<noteq> []" "\<forall>c\<in>set ?x. \<not> isWhiteSpace c" using assms[of m st] by auto
      have t: "blankSep b ?x = False \<and> sepState b ?x = False" using tk by (rule blankSep_token)
      then have "blankSep False (fst (replaceFn f segs ?st))" using p by simp
      then have "blankSep False (segsText segs)" by (rule ih)
      then have "blankSep (sepState b m) (segsText segs)" by (rule blankSep_mono) simp
      then show ?thesis by (simp add: goal blankSep_append)
    qed
  qed
qed

lemma segsText_scan: "segsText (scan fl r p s) = s"
proof (induction s arbitrary: p rule: length_induct)
  case (1 s)
  show ?case
  proof (cases s)
    case Nil
    then show ?thesis by (subst scan.simps) (simp add: segsText_def split: option.splits)
  next
    case (Cons c t)
    have t: "\<And>q. segsText (scan fl r q t) = t" using 1 Cons by simp
    show ?thesis
    proof (cases "matchLen fl r p s")
      case None
      then show ?thesis using Cons t[of "Some c"] by (subst scan.simps) (simp add: segsText_def)
    next
      case (Some n)
      show ?thesis
      proof (cases "0 < n")
        case True
        then have "length (drop n s) < length s" using Cons by simp
        then have "segsText (scan fl r (Some (last (take n s))) (drop n s)) = drop n s"
          using 1 by blast
        then show ?thesis using Some True Cons
          by (subst scan.simps) (simp add: segsText_def del: take_Suc_Cons drop_Suc_Cons)
      next
        case False
        then show ?thesis using Some Cons t[of "Some c"] by (subst scan.simps) (simp add: segsText_def)
      qed
    qed
  qed
qed

lemma replaceWith_blankSep:
  assumes "\<And>m s. fst (f m s) = m \<or> (fst (f m s) \<noteq> [] \<and> (\<forall>c\<in>set (fst (f m s)). \<not> isWhiteSpace c))"
  shows "\<not> blankSep b t \<Longrightarrow> \<not> blankSep b (fst (replaceWith fl r f t st))"
  using replaceFn_blankSep[where f = f, OF assms, of b "scan fl r None t" st]
  by (auto simp: replaceWith_def segsText_scan)

lemma showNat_digits: "\<forall>c\<in>set (showNat n). 48 \<le> c \<and> c \<le> 57"
proof (induction n rule: showNat.induct)
  case (1 n)
  show ?case
  proof (cases "n < 10")
    case True
    then show ?thesis by (subst showNat.simps) simp
  next
    case False
    have "n mod 10 < 10" by simp
    then have "48 + n mod 10 \<le> 57" by linarith
    then show ?thesis using 1 False by (subst showNat.simps) auto
  qed
qed

lemma digit_not_ws: "48 \<le> c \<Longrightarrow> c \<le> 57 \<Longrightarrow> \<not> isWhiteSpace c"
  by (simp add: isWhiteSpace_def wsRanges_def)

lemma protectMatch_token:
  "fst (protectMatch m s) = m \<or>
   (fst (protectMatch m s) \<noteq> [] \<and> (\<forall>c\<in>set (fst (protectMatch m s)). \<not> isWhiteSpace c))"
proof (cases "includesStr m (js ''__PROTECTED_'')")
  case True
  then show ?thesis by (simp add: protectMatch_def)
next
  case False
  have d: "\<forall>c\<in>set (showNat (nextTokenId s)). \<not> isWhiteSpace c"
    using showNat_digits digit_not_ws by blast
  have u: "\<not> isWhiteSpace 95 \<and> \<not> isWhiteSpace 80 \<and> \<not> isWhiteSpace 82 \<and> \<not> isWhiteSpace 79 \<and>
           \<not> isWhiteSpace 84 \<and> \<not> isWhiteSpace 69 \<and> \<not> isWhiteSpace 67 \<and> \<not> isWhiteSpace 68"
    by (simp add: isWhiteSpace_def wsRanges_def)
  show ?thesis using False d u by (auto simp: protectMatch_def Let_def js_def)
qed

lemma foldl_replaceWith_blankSep:
  assumes "\<And>m s. fst (f m s) = m \<or> (fst (f m s) \<noteq> [] \<and> (\<forall>c\<in>set (fst (f m s)). \<not> isWhiteSpace c))"
  shows "\<not> blankSep b t \<Longrightarrow>
         \<not> blankSep b (fst (foldl (\<lambda>(t, s) (fl, r). replaceWith fl r f t s) (t, st) ps))"
proof (induction ps arbitrary: t st)
  case Nil
  then show ?case by simp
next
  case (Cons a ps)
  obtain fl r where a: "a = (fl, r)" by (cases a)
  obtain t' s' where step: "replaceWith fl r f t st = (t', s')" by (cases "replaceWith fl r f t st")
  have "\<not> blankSep b t'"
    using replaceWith_blankSep[where f = f, OF assms, of b t fl r st] Cons.prems step by simp
  then show ?case using Cons.IH[of t' s'] by (simp add: a step)
qed

lemma protectContent_blankSep:
  assumes "protectContent t st = (Inr t', st')" and "\<not> blankSep b t"
  shows "\<not> blankSep b t'"
proof -
  have "foldl (\<lambda>(t, s) (fl, r). replaceWith fl r protectMatch t s) (t, st) patterns = (t', st')"
    using assms(1) unfolding protectContent_def by (rule foldl_tryReplace_Inr)
  moreover have "\<not> blankSep b (fst (foldl (\<lambda>(t, s) (fl, r). replaceWith fl r protectMatch t s) (t, st) patterns))"
    using assms(2) by (rule foldl_replaceWith_blankSep[where f = protectMatch, OF protectMatch_token])
  ultimately show ?thesis by simp
qed

lemma unicodeSpaces_ws: "inRanges unicodeSpaces c \<Longrightarrow> isWhiteSpace c \<and> c \<noteq> 10"
  by (auto simp: unicodeSpaces_def isWhiteSpace_def wsRanges_def split: if_splits)

lemma ws32: "isWhiteSpace 32"
  by (simp add: isWhiteSpace_def wsRanges_def)

lemma blankSep_map_spaces:
  "blankSep b (map (\<lambda>c. if inRanges unicodeSpaces c then 32 else c) t) = blankSep b t"
  using unicodeSpaces_ws ws32 by (induction t arbitrary: b) auto

lemma blankSep_collapse_spaces: "blankSep b (collapse (\<lambda>c. c = 32) [32] r s) = blankSep b s"
  using ws32 by (induction s arbitrary: b r) auto

lemma normalizeWhitespace_blankSep: "blankSep b (normalizeWhitespace t) = blankSep b t"
  by (simp add: normalizeWhitespace_spec blankSep_collapse_spaces blankSep_map_spaces)

lemma inRanges_space: "inRanges [(32, 32)] = (\<lambda>c. c = 32)"
  by (auto simp: fun_eq_iff)

lemma lines_to_spaces:
  "replaceStr flagsG spacesRx [32] (replaceStr flagsG (Chr 10) [32] t) =
     collapse (\<lambda>c. c = 32) [32] False (map (\<lambda>c. if c = 10 then 32 else c) t)"
  by (simp add: spacesRx_def replaceStr_plus_Cls replaceStr_Chr concat_map_single inRanges_space)

lemma processModeB_single:
  assumes "\<not> blankSep False t"
  shows "processModeB t = processModeA t"
proof (cases "trim t = []")
  case False
  then show ?thesis
    using splitRx_blankLine_single[OF assms] by (simp add: processModeB_def processModeA_def Let_def)
next
  case True
  then have ws: "list_all isWhiteSpace t" by (simp add: trim_empty_iff)
  let ?u = "collapse (\<lambda>c. c = 32) [32] False (map (\<lambda>c. if c = 10 then 32 else c) t)"
  have "set ?u \<subseteq> set (map (\<lambda>c. if c = 10 then 32 else c) t) \<union> set [32]"
    by (rule collapse_set)
  then have "set ?u \<subseteq> set t \<union> {32}" by auto
  then have "list_all isWhiteSpace ?u" using ws ws32 by (auto simp: list_all_iff)
  then have "trim ?u = []" by (simp add: trim_empty_iff)
  then show ?thesis
    using True splitRx_blankLine_single[OF assms]
    by (simp add: processModeB_def processModeA_def Let_def lines_to_spaces)
qed

lemma replaceFn_commute:
  assumes "\<And>x s. f x (h s) = (fst (f x s), h (snd (f x s)))"
  shows "replaceFn f segs (h st) = (fst (replaceFn f segs st), h (snd (replaceFn f segs st)))"
proof (induction segs arbitrary: st)
  case Nil
  show ?case by simp
next
  case (Cons x segs)
  show ?case
  proof (cases x)
    case (Lit c)
    then show ?thesis using Cons[of st] by (simp add: split_beta)
  next
    case (Mat m)
    then show ?thesis using Cons[of "snd (f m st)"] assms[of m st] by (simp add: split_beta)
  qed
qed

lemma foldl_replaceWith_commute:
  assumes "\<And>x s. f x (h s) = (fst (f x s), h (snd (f x s)))"
  shows "foldl (\<lambda>(t, s) (fl, r). replaceWith fl r f t s) (t0, h st) ps =
         (fst (foldl (\<lambda>(t, s) (fl, r). replaceWith fl r f t s) (t0, st) ps),
          h (snd (foldl (\<lambda>(t, s) (fl, r). replaceWith fl r f t s) (t0, st) ps)))"
proof (induction ps arbitrary: t0 st)
  case Nil
  show ?case by simp
next
  case (Cons a ps)
  obtain fl r where a: "a = (fl, r)" by (cases a)
  have step: "replaceWith fl r f t0 (h st) = (fst (replaceWith fl r f t0 st), h (snd (replaceWith fl r f t0 st)))"
    unfolding replaceWith_def by (rule replaceFn_commute[where f = f and h = h, OF assms])
  show ?case
    using Cons[of "fst (replaceWith fl r f t0 st)" "snd (replaceWith fl r f t0 st)"]
    by (simp add: a step)
qed

lemma protectMatch_commute:
  "protectMatch x (s\<lparr>mode := m\<rparr>) = (fst (protectMatch x s), (snd (protectMatch x s))\<lparr>mode := m\<rparr>)"
  by (simp add: protectMatch_def Let_def)

lemma newToken_commute:
  "newToken prefix x (s\<lparr>mode := m\<rparr>) = (fst (newToken prefix x s), (snd (newToken prefix x s))\<lparr>mode := m\<rparr>)"
  by (simp add: newToken_def Let_def)

lemma protectStructureMatch_commute:
  "protectStructureMatch x (s\<lparr>mode := m\<rparr>) =
     (fst (protectStructureMatch x s), (snd (protectStructureMatch x s))\<lparr>mode := m\<rparr>)"
  by (simp add: protectStructureMatch_def newToken_commute)

lemma replaceWith_commute:
  assumes "\<And>x s. f x (h s) = (fst (f x s), h (snd (f x s)))"
  shows "replaceWith fl r f t0 (h st) = (fst (replaceWith fl r f t0 st), h (snd (replaceWith fl r f t0 st)))"
  unfolding replaceWith_def by (rule replaceFn_commute[where f = f and h = h, OF assms])

lemma tryReplace_commute:
  assumes "\<And>x s. f x (h s) = (fst (f x s), h (snd (f x s)))"
  shows "tryReplace f (x, h st) p = (fst (tryReplace f (x, st) p), h (snd (tryReplace f (x, st) p)))"
proof -
  obtain fl r where p: "p = (fl, r)" by (cases p)
  show ?thesis
  proof (cases x)
    case (Inl e)
    then show ?thesis by (simp add: tryReplace_Inl)
  next
    case (Inr t)
    then show ?thesis
      using replaceWith_commute[where f = f and h = h, OF assms, of fl r t st]
      by (simp add: p tryReplace_Inr)
  qed
qed

lemma foldl_tryReplace_commute:
  assumes "\<And>x s. f x (h s) = (fst (f x s), h (snd (f x s)))"
  shows "foldl (tryReplace f) (x, h st) ps =
         (fst (foldl (tryReplace f) (x, st) ps), h (snd (foldl (tryReplace f) (x, st) ps)))"
proof (induction ps arbitrary: x st)
  case Nil
  show ?case by simp
next
  case (Cons a ps)
  have step: "tryReplace f (x, h st) a = (fst (tryReplace f (x, st) a), h (snd (tryReplace f (x, st) a)))"
    by (rule tryReplace_commute[where f = f and h = h]) (rule assms)
  show ?case
    using Cons[of "fst (tryReplace f (x, st) a)" "snd (tryReplace f (x, st) a)"]
    by (simp add: step)
qed

lemma protectContent_commute:
  "protectContent t (st\<lparr>mode := m\<rparr>) = (fst (protectContent t st), (snd (protectContent t st))\<lparr>mode := m\<rparr>)"
  unfolding protectContent_def
  by (rule foldl_tryReplace_commute[where f = protectMatch and h = "\<lambda>s. s\<lparr>mode := m\<rparr>"])
     (rule protectMatch_commute)

lemma protectMultiLineBlocks_commute:
  "protectMultiLineBlocks t (st\<lparr>mode := m\<rparr>) =
     (fst (protectMultiLineBlocks t st), (snd (protectMultiLineBlocks t st))\<lparr>mode := m\<rparr>)"
proof -
  have k: "\<And>prefix x s p. tryReplace (newToken prefix) (x, s\<lparr>mode := m\<rparr>) p =
             (fst (tryReplace (newToken prefix) (x, s) p), (snd (tryReplace (newToken prefix) (x, s) p))\<lparr>mode := m\<rparr>)"
    by (rule tryReplace_commute[where h = "\<lambda>s. s\<lparr>mode := m\<rparr>"]) (rule newToken_commute)
  let ?a = "tryReplace (newToken (js ''__MULTILINE_BLOCK_'')) (Inr t, st) (flagsG, codeBlockRegex)"
  let ?b = "tryReplace (newToken (js ''__HTML_BLOCK_'')) ?a (flagsGI, htmlBlockRegex)"
  have a: "tryReplace (newToken (js ''__MULTILINE_BLOCK_'')) (Inr t, st\<lparr>mode := m\<rparr>) (flagsG, codeBlockRegex)
           = (fst ?a, (snd ?a)\<lparr>mode := m\<rparr>)"
    by (rule k)
  have b: "tryReplace (newToken (js ''__HTML_BLOCK_'')) (fst ?a, (snd ?a)\<lparr>mode := m\<rparr>) (flagsGI, htmlBlockRegex)
           = (fst ?b, (snd ?b)\<lparr>mode := m\<rparr>)"
    using k[of "js ''__HTML_BLOCK_''" "fst ?a" "snd ?a" "(flagsGI, htmlBlockRegex)"] by simp
  have c: "tryReplace (newToken (js ''__HTML_BLOCK_'')) (fst ?b, (snd ?b)\<lparr>mode := m\<rparr>) (flagsGI, scriptStyleRegex)
           = (fst (tryReplace (newToken (js ''__HTML_BLOCK_'')) ?b (flagsGI, scriptStyleRegex)),
              (snd (tryReplace (newToken (js ''__HTML_BLOCK_'')) ?b (flagsGI, scriptStyleRegex)))\<lparr>mode := m\<rparr>)"
    using k[of "js ''__HTML_BLOCK_''" "fst ?b" "snd ?b" "(flagsGI, scriptStyleRegex)"] by simp
  show ?thesis
    by (simp only: protectMultiLineBlocks_def Let_def a b c)
qed

lemma protectStructureAndContent_commute:
  "protectStructureAndContent t (st\<lparr>mode := m\<rparr>) =
     (fst (protectStructureAndContent t st), (snd (protectStructureAndContent t st))\<lparr>mode := m\<rparr>)"
proof -
  obtain x1 s1 where b: "protectMultiLineBlocks t st = (x1, s1)" by (cases "protectMultiLineBlocks t st")
  have b': "protectMultiLineBlocks t (st\<lparr>mode := m\<rparr>) = (x1, s1\<lparr>mode := m\<rparr>)"
    using protectMultiLineBlocks_commute[where t = t and st = st and m = m] b by simp
  show ?thesis
    unfolding protectStructureAndContent_def b b'
    by (rule foldl_tryReplace_commute[where f = protectStructureMatch and h = "\<lambda>s. s\<lparr>mode := m\<rparr>"])
       (rule protectStructureMatch_commute)
qed

lemma restore_mode: "restoreProtectedContent t (s\<lparr>mode := m\<rparr>) = restoreProtectedContent t s"
  by (simp add: restoreProtectedContent_def)

lemma restore2_mode: "restoreProtectedContent2 t (s\<lparr>mode := m\<rparr>) = restoreProtectedContent2 t s"
  by (simp add: restoreProtectedContent2_def)

lemma jsA_ne_B: "js ''A'' \<noteq> js ''B''" "js ''B'' \<noteq> js ''A''"
  by (simp_all add: js_def)

lemma processBatch_A_B:
  assumes "\<not> blankSep False batch"
  shows "processBatch batch (st\<lparr>mode := js ''B''\<rparr>) =
         (fst (processBatch batch (st\<lparr>mode := js ''A''\<rparr>)), (snd (processBatch batch (st\<lparr>mode := js ''A''\<rparr>)))\<lparr>mode := js ''B''\<rparr>)"
proof -
  obtain x s1 where p: "protectContent batch st = (x, s1)" by (cases "protectContent batch st")
  have m1: "mode s1 = mode st" using protectContent_mode[of batch st] p by simp
  have pm: "\<And>m. protectContent batch (st\<lparr>mode := m\<rparr>) = (x, s1\<lparr>mode := m\<rparr>)"
    using protectContent_commute[where t = batch and st = st] p by simp
  show ?thesis
  proof (cases x)
    case (Inl e)
    then show ?thesis by (simp add: processBatch_def pm)
  next
    case (Inr pt)
    have "\<not> blankSep False pt" using p assms unfolding Inr by (rule protectContent_blankSep)
    then have "\<not> blankSep False (normalizeWhitespace pt)" by (simp add: normalizeWhitespace_blankSep)
    then have m: "processModeB (normalizeWhitespace pt) = processModeA (normalizeWhitespace pt)"
      by (rule processModeB_single)
    show ?thesis
      by (simp add: processBatch_def pm Inr Let_def restore_mode jsA_ne_B m split: sum.splits)
  qed
qed

lemma processBatch2_A_B:
  "processBatch2 batch (st\<lparr>mode := js ''B''\<rparr>) =
     (fst (processBatch2 batch (st\<lparr>mode := js ''A''\<rparr>)), (snd (processBatch2 batch (st\<lparr>mode := js ''A''\<rparr>)))\<lparr>mode := js ''B''\<rparr>)"
proof -
  obtain x s1 where p: "protectStructureAndContent batch st = (x, s1)"
    by (cases "protectStructureAndContent batch st")
  have pm: "\<And>m. protectStructureAndContent batch (st\<lparr>mode := m\<rparr>) = (x, s1\<lparr>mode := m\<rparr>)"
    using protectStructureAndContent_commute[where t = batch and st = st] p by simp
  show ?thesis
    by (cases x) (simp_all add: processBatch2_def pm Let_def restore2_mode jsA_ne_B modeA_eq_modeB split: sum.splits)
qed

lemma update_mode_twice: "(s\<lparr>mode := a\<rparr>)\<lparr>mode := b\<rparr> = s\<lparr>mode := b\<rparr>"
  by simp

lemma mapBatches_A_B:
  assumes "\<And>b st. b \<in> set bs \<Longrightarrow>
            f b (st\<lparr>mode := js ''B''\<rparr>) = (fst (f b (st\<lparr>mode := js ''A''\<rparr>)), (snd (f b (st\<lparr>mode := js ''A''\<rparr>)))\<lparr>mode := js ''B''\<rparr>)"
    and "\<And>b st. mode (snd (f b st)) = mode st"
  shows "mapBatches f bs (st\<lparr>mode := js ''B''\<rparr>) =
         (fst (mapBatches f bs (st\<lparr>mode := js ''A''\<rparr>)), (snd (mapBatches f bs (st\<lparr>mode := js ''A''\<rparr>)))\<lparr>mode := js ''B''\<rparr>)"
  using assms(1)
proof (induction bs arbitrary: st)
  case Nil
  show ?case by simp
next
  case (Cons b bs)
  obtain x sA where fa: "f b (st\<lparr>mode := js ''A''\<rparr>) = (x, sA)" by (cases "f b (st\<lparr>mode := js ''A''\<rparr>)")
  have mA: "mode sA = js ''A''" using assms(2)[of b "st\<lparr>mode := js ''A''\<rparr>"] fa by simp
  then have sA: "sA\<lparr>mode := js ''A''\<rparr> = sA" by simp
  have fb: "f b (st\<lparr>mode := js ''B''\<rparr>) = (x, sA\<lparr>mode := js ''B''\<rparr>)"
    using Cons.prems[of b st] fa by simp
  have ih: "mapBatches f bs (sA\<lparr>mode := js ''B''\<rparr>) =
         (fst (mapBatches f bs sA), (snd (mapBatches f bs sA))\<lparr>mode := js ''B''\<rparr>)"
    using Cons.IH[of sA] Cons.prems by (simp add: sA)
  show ?case
  proof (cases x)
    case (Inl e)
    then show ?thesis by (simp add: fa fb)
  next
    case (Inr y)
    obtain r s2 where mb: "mapBatches f bs sA = (r, s2)" by (cases "mapBatches f bs sA")
    show ?thesis
      using ih by (cases r) (simp_all add: fa fb Inr mb)
  qed
qed

lemma processBatch_mode: "mode (snd (processBatch b st)) = mode st"
proof -
  obtain x s1 where p: "protectContent b st = (x, s1)" by (cases "protectContent b st")
  have "mode s1 = mode st" using protectContent_mode[of b st] p by simp
  then show ?thesis by (cases x) (simp_all add: processBatch_def p Let_def split: sum.splits)
qed

lemma processBatch2_mode: "mode (snd (processBatch2 b st)) = mode st"
proof -
  obtain x s1 where p: "protectStructureAndContent b st = (x, s1)"
    by (cases "protectStructureAndContent b st")
  have "mode s1 = mode st" using protectStructureAndContent_mode[of b st] p by simp
  then show ?thesis by (cases x) (simp_all add: processBatch2_def p Let_def split: sum.splits)
qed

lemma updateOutputStats_mode:
  "updateOutputStats a b (s\<lparr>mode := m\<rparr>) = (updateOutputStats a b s)\<lparr>mode := m\<rparr>"
  by (simp add: updateOutputStats_def Let_def)

lemma verifyContentIntegrity_mode:
  "verifyContentIntegrity a b (s\<lparr>mode := m\<rparr>) = (verifyContentIntegrity a b s)\<lparr>mode := m\<rparr>"
  by (simp add: verifyContentIntegrity_def Let_def showWarning_def)

lemma displayOutput_mode:
  "displayOutput a b (s\<lparr>mode := m\<rparr>) = (displayOutput a b s)\<lparr>mode := m\<rparr>"
  by (simp add: displayOutput_def updateOutputStats_def verifyContentIntegrity_def showWarning_def Let_def)

lemma catchError_mode:
  "catchError e a (s\<lparr>mode := m\<rparr>) = (catchError e a s)\<lparr>mode := m\<rparr>"
  by (simp add: catchError_def showWarning_def split: sum.splits)

lemma reset_after_mode:
  "st\<lparr>mode := m, protectedMap := pm, nextTokenId := k\<rparr> = st\<lparr>protectedMap := pm, nextTokenId := k, mode := m\<rparr>"
  by (cases st) simp

lemma tryBatches_A_B:
  assumes "\<And>b st. b \<in> set (splitIntoBatches input) \<Longrightarrow>
            f b (st\<lparr>mode := js ''B''\<rparr>) = (fst (f b (st\<lparr>mode := js ''A''\<rparr>)), (snd (f b (st\<lparr>mode := js ''A''\<rparr>)))\<lparr>mode := js ''B''\<rparr>)"
    and "\<And>b st. mode (snd (f b st)) = mode st"
  shows "tryBatches f input (st\<lparr>mode := js ''B''\<rparr>) =
         (fst (tryBatches f input (st\<lparr>mode := js ''A''\<rparr>)), (snd (tryBatches f input (st\<lparr>mode := js ''A''\<rparr>)))\<lparr>mode := js ''B''\<rparr>)"
proof -
  have mb: "mapBatches f (splitIntoBatches input) (st\<lparr>mode := js ''B''\<rparr>) =
         (fst (mapBatches f (splitIntoBatches input) (st\<lparr>mode := js ''A''\<rparr>)),
          (snd (mapBatches f (splitIntoBatches input) (st\<lparr>mode := js ''A''\<rparr>)))\<lparr>mode := js ''B''\<rparr>)"
    using assms by (rule mapBatches_A_B)
  obtain r s2 where a: "mapBatches f (splitIntoBatches input) (st\<lparr>mode := js ''A''\<rparr>) = (r, s2)"
    by (cases "mapBatches f (splitIntoBatches input) (st\<lparr>mode := js ''A''\<rparr>)")
  show ?thesis
    using mb by (cases r) (simp_all add: tryBatches_def a Let_def)
qed

lemma processText_A_B:
  "processText input (st\<lparr>mode := js ''B''\<rparr>) = (processText input (st\<lparr>mode := js ''A''\<rparr>))\<lparr>mode := js ''B''\<rparr>"
proof (cases "trim input = []")
  case True
  then show ?thesis by (simp add: processText_def)
next
  case False
  let ?s = "st\<lparr>protectedMap := [], nextTokenId := 1\<rparr>"
  have tb: "tryBatches processBatch (trim input) (?s\<lparr>mode := js ''B''\<rparr>) =
         (fst (tryBatches processBatch (trim input) (?s\<lparr>mode := js ''A''\<rparr>)),
          (snd (tryBatches processBatch (trim input) (?s\<lparr>mode := js ''A''\<rparr>)))\<lparr>mode := js ''B''\<rparr>)"
    by (rule tryBatches_A_B) (simp_all add: processBatch_A_B splitIntoBatches_no_blank processBatch_mode)
  obtain r s2 where a: "tryBatches processBatch (trim input) (?s\<lparr>mode := js ''A''\<rparr>) = (r, s2)"
    by (cases "tryBatches processBatch (trim input) (?s\<lparr>mode := js ''A''\<rparr>)")
  have e: "\<And>m. processText input (st\<lparr>mode := m\<rparr>) =
             (case tryBatches processBatch (trim input) (?s\<lparr>mode := m\<rparr>) of
                (Inr output, st2) \<Rightarrow> displayOutput (trim input) output st2
              | (Inl e, st2) \<Rightarrow> catchError e (trim input) st2)"
    using False by (simp add: processText_def Let_def reset_after_mode)
  show ?thesis
    unfolding e tb a
    by (cases r) (simp_all add: displayOutput_mode catchError_mode)
qed

lemma processText2_A_B:
  "processText2 input (st\<lparr>mode := js ''B''\<rparr>) = (processText2 input (st\<lparr>mode := js ''A''\<rparr>))\<lparr>mode := js ''B''\<rparr>"
proof (cases "trim input = []")
  case True
  then show ?thesis by (simp add: processText2_def)
next
  case False
  let ?s = "st\<lparr>protectedMap := [], nextTokenId := 1\<rparr>"
  have tb: "tryBatches processBatch2 input (?s\<lparr>mode := js ''B''\<rparr>) =
         (fst (tryBatches processBatch2 input (?s\<lparr>mode := js ''A''\<rparr>)),
          (snd (tryBatches processBatch2 input (?s\<lparr>mode := js ''A''\<rparr>)))\<lparr>mode := js ''B''\<rparr>)"
    by (rule tryBatches_A_B) (simp_all add: processBatch2_A_B processBatch2_mode)
  obtain r s2 where a: "tryBatches processBatch2 input (?s\<lparr>mode := js ''A''\<rparr>) = (r, s2)"
    by (cases "tryBatches processBatch2 input (?s\<lparr>mode := js ''A''\<rparr>)")
  have e: "\<And>m. processText2 input (st\<lparr>mode := m\<rparr>) =
             (case tryBatches processBatch2 input (?s\<lparr>mode := m\<rparr>) of
                (Inr output, st2) \<Rightarrow> displayOutput input output st2
              | (Inl e, st2) \<Rightarrow> catchError e input st2)"
    using False by (simp add: processText2_def Let_def reset_after_mode)
  show ?thesis
    unfolding e tb a
    by (cases r) (simp_all add: displayOutput_mode catchError_mode)
qed
section \<open>Texts made of batches\<close>

lemma matchLen_blankLine_indep: "matchLen flagsG blankLineRx p s = matchLen flagsG blankLineRx q s"
  by (simp add: matchLen_def ms_blankLine)

lemma splitLoop_blankLine_indep:
  "splitLoop flagsG blankLineRx p cur s = splitLoop flagsG blankLineRx None cur s"
proof (induction s arbitrary: p cur rule: length_induct)
  case (1 s)
  show ?case
  proof (cases s)
    case Nil
    then show ?thesis by (subst splitLoop.simps, subst (2) splitLoop.simps) simp
  next
    case (Cons c t)
    have m: "matchLen flagsG blankLineRx p s = matchLen flagsG blankLineRx None s"
      by (rule matchLen_blankLine_indep)
    have lt: "length t < length s" using Cons by simp
    have t: "\<And>q cur'. splitLoop flagsG blankLineRx q cur' t = splitLoop flagsG blankLineRx None cur' t"
      using 1 lt by blast
    have d: "\<And>n q cur'. 0 < n \<Longrightarrow> splitLoop flagsG blankLineRx q cur' (drop n s) = splitLoop flagsG blankLineRx None cur' (drop n s)"
    proof -
      fix n :: nat and q cur' assume "0 < n"
      then have "length (drop n s) < length s" using Cons by simp
      then show "splitLoop flagsG blankLineRx q cur' (drop n s) = splitLoop flagsG blankLineRx None cur' (drop n s)"
        using 1 by blast
    qed
    show ?thesis
    proof (cases "matchLen flagsG blankLineRx None s")
      case None
      then show ?thesis
        using Cons m t[of "Some c"]
        by (subst splitLoop.simps, subst (2) splitLoop.simps) simp
    next
      case (Some n)
      then have pos: "0 < n" by (rule matchLen_blankLine_pos)
      show ?thesis
        using Cons m Some pos d[OF pos, of "Some (last (take n s))" "[]"]
        by (subst splitLoop.simps, subst (2) splitLoop.simps) simp
    qed
  qed
qed

lemma splitLoop_skip:
  assumes "\<forall>n < length u. \<not> sepAt (drop n u @ tail)"
  shows "splitLoop flagsG blankLineRx None cur (u @ tail) = splitLoop flagsG blankLineRx None (cur @ u) tail"
  using assms
proof (induction u arbitrary: cur)
  case Nil
  show ?case by simp
next
  case (Cons c u)
  have h: "matchLen flagsG blankLineRx None (c # u @ tail) = None"
    using Cons.prems[rule_format, of 0] by (simp add: matchLen_blankLine_None)
  have r: "\<forall>n < length u. \<not> sepAt (drop n u @ tail)"
    using Cons.prems[rule_format, of "Suc _"] by simp
  have "splitLoop flagsG blankLineRx None cur ((c # u) @ tail) =
        splitLoop flagsG blankLineRx (Some c) (cur @ [c]) (u @ tail)"
    by (subst splitLoop.simps) (simp add: h)
  also have "\<dots> = splitLoop flagsG blankLineRx None (cur @ [c]) (u @ tail)"
    by (rule splitLoop_blankLine_indep)
  also have "\<dots> = splitLoop flagsG blankLineRx None ((cur @ [c]) @ u) tail"
    using r by (rule Cons.IH)
  finally show ?case by simp
qed

lemma batchText_no_sep:
  assumes "batchText b" and "n < length b"
  shows "\<not> sepAt (drop n b @ tail)"
proof
  assume s: "sepAt (drop n b @ tail)"
  obtain c r where u: "drop n b = c # r" using assms(2) by (cases "drop n b") auto
  have c: "c = 10" and m: "10 \<in> set (takeWhile isWhiteSpace (r @ tail))"
    using s u by (auto simp: sepAt_def)
  have lastb: "\<not> isWhiteSpace (last b)" using assms(1) by (simp add: batchText_def)
  have lu: "last (c # r) = last b" using u assms(2) by (metis last_drop)
  show False
  proof (cases "r = []")
    case True
    then show ?thesis using lu c lastb ws10 by simp
  next
    case False
    then have "last r = last b" using lu by simp
    then have "\<exists>x\<in>set r. \<not> isWhiteSpace x" using False lastb by (metis last_in_set)
    then obtain y where "y \<in> set r" "\<not> isWhiteSpace y" by blast
    then have "takeWhile isWhiteSpace (r @ tail) = takeWhile isWhiteSpace r"
      by (rule takeWhile_append1)
    then have "sepAt (drop n b)" using m c u by (simp add: sepAt_def)
    then have "blankSep False b" by (auto simp: blankSep_iff)
    then show ?thesis using assms(1) by (simp add: batchText_def)
  qed
qed

lemma nlNext_star_first:
  assumes "list_all P w" and "P 10" and "x = [] \<or> \<not> P (hd x)"
  shows "\<exists>rest. concat (map nlNext (starStates P p (w @ 10 # x) cs)) = (Some 10, x, cs) # rest"
  using assms(1)
proof (induction w arbitrary: p)
  case Nil
  have e: "starStates P (Some 10) x cs = [(Some 10, x, cs)]"
    using assms(3) by (cases x) auto
  show ?case using assms(2,3) by (cases x) (auto simp: e)
next
  case (Cons c w)
  then obtain rest where "concat (map nlNext (starStates P (Some c) (w @ 10 # x) cs)) = (Some 10, x, cs) # rest"
    by fastforce
  then show ?case using Cons.prems by simp
qed

lemma matchLen_blankLines:
  assumes "blankLines sep" and "x = [] \<or> \<not> isWhiteSpace (hd x)"
  shows "matchLen flagsG blankLineRx p (sep @ x) = Some (length sep)"
proof -
  obtain r where sep: "sep = 10 # r" and r: "r \<noteq> []" "last r = 10" "list_all isWhiteSpace r"
    using assms(1) by (cases sep) (auto simp: blankLines_def)
  obtain w where w: "r = w @ [10]" using r(1,2) by (metis append_butlast_last_id)
  have ww: "list_all isWhiteSpace w" using r(3) w by simp
  obtain rest where f: "concat (map nlNext (starStates isWhiteSpace (Some 10) (w @ 10 # x) [])) = (Some 10, x, []) # rest"
    using nlNext_star_first[where P = isWhiteSpace, OF ww ws10 assms(2)] by blast
  show ?thesis
    by (simp add: matchLen_def ms_blankLine sep w f)
qed

lemma interleave_nonempty: "b0 \<noteq> [] \<Longrightarrow> interleave b0 rest \<noteq> [] \<and> hd (interleave b0 rest) = hd b0"
  by (cases rest) auto

lemma split_interleave:
  assumes "batchText b0" and "\<forall>(sep, b) \<in> set rest. blankLines sep \<and> batchText b"
  shows "splitLoop flagsG blankLineRx None cur (interleave b0 rest) = (cur @ b0) # map snd rest"
  using assms
proof (induction rest arbitrary: b0 cur)
  case Nil
  have "\<forall>n < length b0. \<not> sepAt (drop n b0 @ [])"
    using batchText_no_sep[OF Nil(1)] by blast
  then have "splitLoop flagsG blankLineRx None cur (b0 @ []) = splitLoop flagsG blankLineRx None (cur @ b0) []"
    by (rule splitLoop_skip)
  then show ?case by (simp add: splitLoop.simps[of _ _ _ _ "[]"])
next
  case (Cons a rest)
  obtain sep b where a: "a = (sep, b)" by (cases a)
  have sep: "blankLines sep" and b: "batchText b" and
       rest: "\<forall>(sep, b) \<in> set rest. blankLines sep \<and> batchText b"
    using Cons.prems(2) a by auto
  let ?x = "interleave b rest"
  have bne: "b \<noteq> []" "\<not> isWhiteSpace (hd b)" using b by (simp_all add: batchText_def)
  have x: "?x \<noteq> []" "hd ?x = hd b" using interleave_nonempty[OF bne(1), of rest] by simp_all
  have m: "matchLen flagsG blankLineRx None (sep @ ?x) = Some (length sep)"
    using sep by (rule matchLen_blankLines) (simp add: x bne)
  have sne: "sep \<noteq> []" using sep by (auto simp: blankLines_def)
  have "\<forall>n < length b0. \<not> sepAt (drop n b0 @ (sep @ ?x))"
    using batchText_no_sep[OF Cons.prems(1)] by blast
  then have "splitLoop flagsG blankLineRx None cur (b0 @ (sep @ ?x)) =
             splitLoop flagsG blankLineRx None (cur @ b0) (sep @ ?x)"
    by (rule splitLoop_skip)
  also have "\<dots> = (cur @ b0) # splitLoop flagsG blankLineRx (Some (last (take (length sep) (sep @ ?x)))) [] (drop (length sep) (sep @ ?x))"
    using m sne by (subst splitLoop.simps) (cases sep, simp_all del: take_append drop_append)
  also have "\<dots> = (cur @ b0) # splitLoop flagsG blankLineRx None [] ?x"
    by (simp add: splitLoop_blankLine_indep[of "Some _"])
  also have "\<dots> = (cur @ b0) # ([] @ b) # map snd rest"
    using Cons.IH[OF b rest, of "[]"] by simp
  finally show ?case by (simp add: a)
qed

lemma batchText_trim: "batchText b \<Longrightarrow> trim b \<noteq> []"
proof
  assume b: "batchText b" and t: "trim b = []"
  then have "list_all isWhiteSpace b" by (simp add: trim_empty_iff)
  moreover have "hd b \<in> set b" using b by (simp add: batchText_def)
  ultimately have "isWhiteSpace (hd b)" by (simp add: list_all_iff)
  then show False using b by (simp add: batchText_def)
qed

lemma splitIntoBatches_interleave:
  assumes "batchText b0" and "\<forall>(sep, b) \<in> set rest. blankLines sep \<and> batchText b"
  shows "splitIntoBatches (interleave b0 rest) = b0 # map snd rest"
proof -
  have ne: "interleave b0 rest \<noteq> []"
    using assms(1) interleave_nonempty[of b0 rest] by (simp add: batchText_def)
  have s: "splitRx flagsG blankLineRx (interleave b0 rest) = b0 # map snd rest"
    using split_interleave[OF assms, of "[]"] ne by (simp add: splitRx_def)
  have "\<forall>b \<in> set (b0 # map snd rest). trim b \<noteq> []"
    using assms batchText_trim by fastforce
  then have "filter (\<lambda>batch. trim batch \<noteq> []) (b0 # map snd rest) = b0 # map snd rest"
    by (simp only: filter_True)
  then show ?thesis by (simp add: splitIntoBatches_def s)
qed

lemma interleave_last:
  assumes "batchText b0" and "\<forall>(sep, b) \<in> set rest. blankLines sep \<and> batchText b"
  shows "\<not> isWhiteSpace (last (interleave b0 rest))"
  using assms
proof (induction rest arbitrary: b0)
  case Nil
  then show ?case by (simp add: batchText_def)
next
  case (Cons a rest)
  obtain sep b where a: "a = (sep, b)" by (cases a)
  have b: "batchText b" and rest: "\<forall>(sep, b) \<in> set rest. blankLines sep \<and> batchText b"
    using Cons.prems(2) a by auto
  have "interleave b rest \<noteq> []" using b interleave_nonempty[of b rest] by (simp add: batchText_def)
  then show ?case using Cons.IH[OF b rest] by (simp add: a)
qed

lemma trim_id:
  assumes "s \<noteq> []" and "\<not> isWhiteSpace (hd s)" and "\<not> isWhiteSpace (last s)"
  shows "trim s = s"
proof -
  have "dropWhile isWhiteSpace (rev s) = rev s"
    using assms(1,3) by (cases "rev s") (auto simp: last_rev[symmetric] hd_rev)
  then have "trimEnd s = s" by (simp add: trimEnd_def)
  moreover have "dropWhile isWhiteSpace s = s" using assms(1,2) by (cases s) auto
  ultimately show ?thesis by (simp add: trim_def trimStart_def)
qed

lemma trim_interleave:
  assumes "batchText b0" and "\<forall>(sep, b) \<in> set rest. blankLines sep \<and> batchText b"
  shows "trim (interleave b0 rest) = interleave b0 rest"
proof (rule trim_id)
  show "interleave b0 rest \<noteq> []"
    using assms(1) interleave_nonempty[of b0 rest] by (simp add: batchText_def)
  show "\<not> isWhiteSpace (hd (interleave b0 rest))"
    using assms(1) interleave_nonempty[of b0 rest] by (simp add: batchText_def)
  show "\<not> isWhiteSpace (last (interleave b0 rest))"
    using assms by (rule interleave_last)
qed

lemma verifier_out: "outputText (verifyContentIntegrity a b s) = outputText s"
  by (simp add: verifyContentIntegrity_def Let_def showWarning_def)

section \<open>Restoration: the pattern of a token\<close>

lemma getSubstitution_escape: "getSubstitution [92, 36, 38] m pre post = 92 # m"
  by simp

lemma escapeRegExp_spec:
  "escapeRegExp s = concat (map (\<lambda>c. if inRanges syntaxChars c then [92, c] else [c]) s)"
proof -
  have "\<And>pre. replaceSegs [92, 36, 38] pre (map (\<lambda>c. if inRanges syntaxChars c then Mat [c] else Lit c) s) =
          concat (map (\<lambda>c. if inRanges syntaxChars c then [92, c] else [c]) s)"
    by (induction s) (auto simp: segsText_def)
  then show ?thesis by (simp add: escapeRegExp_def replaceStr_def scan_Cls)
qed

lemma syntax92: "inRanges syntaxChars 92"
  by (simp add: syntaxChars_def one_def)

lemma regExpOfEscaped_escape: "regExpOfEscaped (escapeRegExp s) = lit s"
proof -
  have "regExpOfEscaped (concat (map (\<lambda>c. if inRanges syntaxChars c then [92, c] else [c]) s)) = foldr Seq (map Chr s) rx.Eps"
  proof (induction s)
    case Nil
    show ?case by simp
  next
    case (Cons c s)
    show ?case
    proof (cases "inRanges syntaxChars c")
      case True
      then show ?thesis using Cons by simp
    next
      case False
      then have n92: "c \<noteq> 92" using syntax92 by auto
      show ?thesis
      proof (cases "concat (map (\<lambda>c. if inRanges syntaxChars c then [92, c] else [c]) s)")
        case Nil
        then have "s = []" by (cases s) (auto split: if_splits)
        then show ?thesis using False by simp
      next
        case (Cons d r)
        then show ?thesis using False n92 Cons.IH \<open>regExpOfEscaped (concat (map (\<lambda>c. if inRanges syntaxChars c then [92, c] else [c]) s)) = foldr Seq (map Chr s) rx.Eps\<close>
          by simp
      qed
    qed
  qed
  then show ?thesis by (simp add: escapeRegExp_spec lit_def seqs_def)
qed

lemma ms_lit:
  "ms flagsG (lit t) (p, s, cs) =
     (if startsWith s t then [(if t = [] then p else Some (last t), drop (length t) s, cs)] else [])"
proof (induction t arbitrary: p s)
  case Nil
  show ?case by (simp add: lit_def seqs_def)
next
  case (Cons a t)
  have l: "lit (a # t) = Seq (Chr a) (lit t)" by (simp add: lit_def seqs_def)
  show ?case
  proof (cases s)
    case Nil
    then show ?thesis by (simp add: l)
  next
    case (Cons c s')
    show ?thesis
      using Cons.IH[of "Some c" s'] by (auto simp: l Cons flagsG_ic canon_def)
  qed
qed

lemma startsWith_length: "startsWith s t \<Longrightarrow> length t \<le> length s"
  by (induction s t rule: startsWith.induct) auto

lemma matchLen_lit:
  "matchLen flagsG (lit t) p s = (if startsWith s t then Some (length t) else None)"
  using startsWith_length[of s t] by (auto simp: matchLen_def ms_lit)

lemma includesStr_drop: "startsWith (drop n s) t \<Longrightarrow> t \<noteq> [] \<Longrightarrow> includesStr s t"
proof (induction s arbitrary: n)
  case Nil
  then show ?case by (cases t) auto
next
  case (Cons c s)
  show ?case
  proof (cases n)
    case 0
    then show ?thesis using Cons.prems by simp
  next
    case (Suc k)
    then show ?thesis using Cons.IH[of k] Cons.prems by simp
  qed
qed

lemma scan_lit_absent:
  assumes "\<not> includesStr s t" and "t \<noteq> []"
  shows "scan flagsG (lit t) p s = map Lit s"
  using assms(1)
proof (induction s arbitrary: p)
  case Nil
  then show ?case using assms(2) by (subst scan.simps) (cases t, simp_all add: matchLen_lit)
next
  case (Cons c s)
  then show ?case by (subst scan.simps) (simp add: matchLen_lit)
qed

lemma replaceSegs_Lit: "replaceSegs rep pre (map Lit s) = s"
  by (induction s arbitrary: pre) auto

lemma replace_token_absent:
  assumes "\<not> includesStr s t" and "t \<noteq> []"
  shows "replaceStr flagsG (regExpOfEscaped (escapeRegExp t)) orig s = s"
  using assms by (simp add: replaceStr_def regExpOfEscaped_escape scan_lit_absent replaceSegs_Lit)
section \<open>Texts that the pipeline leaves as they are\<close>

lemma replaceFn_Lit: "replaceFn f (map Lit s) st = (s, st)"
  by (induction s) auto

lemma noMatch_protect:
  assumes "list_all (\<lambda>(fl, r). scan fl r None b = map Lit b) ps" and "length b \<le> maxStringLength"
  shows "foldl (tryReplace f) (Inr b, st) ps = (Inr b, st)"
  using assms(1)
proof (induction ps)
  case Nil
  show ?case by simp
next
  case (Cons a ps)
  obtain fl r where a: "a = (fl, r)" by (cases a)
  have "replaceWith fl r f b st = (b, st)" using Cons.prems by (simp add: a replaceWith_def replaceFn_Lit)
  then have "tryReplace f (Inr b, st) a = (Inr b, st)"
    using assms(2) by (simp add: a tryReplace_Inr newString_fits)
  then show ?case using Cons by simp
qed

lemma protectContent_noMatch:
  "noMatch patterns b \<Longrightarrow> length b \<le> maxStringLength \<Longrightarrow> protectContent b st = (Inr b, st)"
  by (simp add: noMatch_def protectContent_def noMatch_protect)

lemma restore_empty: "protectedMap st = [] \<Longrightarrow> restoreProtectedContent t st = Inr t"
  by (simp add: restoreProtectedContent_def)

subsection \<open>Runs of spaces\<close>

lemma collapse_chars: "set (collapse P rep b s) \<subseteq> {c \<in> set s. \<not> P c} \<union> set rep"
  by (induction s arbitrary: b) auto

lemma collapse_isolated: "P 32 \<Longrightarrow> isolated P b (collapse P [32] b s)"
  by (induction s arbitrary: b) auto

lemma collapse_id:
  "\<forall>c\<in>set s. P c \<longrightarrow> c = 32 \<Longrightarrow> isolated P b s \<Longrightarrow> collapse P [32] b s = s"
  by (induction s arbitrary: b) auto

lemma collapse_nonws:
  "\<forall>c. P c \<longrightarrow> isWhiteSpace c \<Longrightarrow> \<forall>c\<in>set rep. isWhiteSpace c \<Longrightarrow>
   filter (\<lambda>c. \<not> isWhiteSpace c) (collapse P rep b s) = filter (\<lambda>c. \<not> isWhiteSpace c) s"
  by (induction s arbitrary: b) auto

lemma isolated_weaken: "isolated P b s \<Longrightarrow> isolated P False s"
  by (cases s) auto

lemma isolated_append_right: "isolated P b (xs @ ys) \<Longrightarrow> isolated P False ys"
proof (induction xs arbitrary: b)
  case Nil
  then show ?case by (simp add: isolated_weaken)
next
  case (Cons x xs)
  then show ?case by auto
qed

lemma isolated_append_left: "isolated P b (xs @ ys) \<Longrightarrow> isolated P b xs"
  by (induction xs arbitrary: b) auto

lemma trim_decomp: "\<exists>a c. s = a @ trim s @ c"
proof -
  obtain w where w: "s = trimEnd s @ w" using trimEnd_decomp by blast
  have "trimEnd s = takeWhile isWhiteSpace (trimEnd s) @ trim s"
    by (simp add: trim_def trimStart_def)
  then have "s = takeWhile isWhiteSpace (trimEnd s) @ trim s @ w" using w by (metis append_assoc)
  then show ?thesis by blast
qed

lemma trim_isolated: "isolated P b s \<Longrightarrow> isolated P False (trim s)"
proof -
  assume i: "isolated P b s"
  obtain a c where d: "s = a @ trim s @ c" using trim_decomp by blast
  have "isolated P b (a @ (trim s @ c))" using i d by simp
  then have "isolated P False (trim s @ c)" by (rule isolated_append_right)
  then show ?thesis by (rule isolated_append_left)
qed

lemma trim_set: "set (trim s) \<subseteq> set s"
proof -
  obtain a c where d: "s = a @ trim s @ c" using trim_decomp by blast
  have "set (trim s) \<subseteq> set (a @ trim s @ c)" by auto
  then show ?thesis using d by simp
qed

lemma trim_nonws: "filter (\<lambda>c. \<not> isWhiteSpace c) (trim s) = filter (\<lambda>c. \<not> isWhiteSpace c) s"
proof -
  obtain w where w: "s = trimEnd s @ w" "list_all isWhiteSpace w" using trimEnd_decomp by blast
  have e: "trimEnd s = takeWhile isWhiteSpace (trimEnd s) @ trim s"
    by (simp add: trim_def trimStart_def)
  have f1: "filter (\<lambda>c. \<not> isWhiteSpace c) w = []"
    using w(2) by (simp add: list_all_iff filter_empty_conv)
  have f2: "filter (\<lambda>c. \<not> isWhiteSpace c) (takeWhile isWhiteSpace (trimEnd s)) = []"
    by (simp add: filter_empty_conv) (meson set_takeWhileD)
  have "filter (\<lambda>c. \<not> isWhiteSpace c) s =
        filter (\<lambda>c. \<not> isWhiteSpace c) (trimEnd s) @ filter (\<lambda>c. \<not> isWhiteSpace c) w"
    using w(1) by (metis filter_append)
  also have "\<dots> = filter (\<lambda>c. \<not> isWhiteSpace c) (trimEnd s)" using f1 by simp
  also have "\<dots> = filter (\<lambda>c. \<not> isWhiteSpace c) (takeWhile isWhiteSpace (trimEnd s)) @
                   filter (\<lambda>c. \<not> isWhiteSpace c) (trim s)"
    using e by (metis filter_append)
  also have "\<dots> = filter (\<lambda>c. \<not> isWhiteSpace c) (trim s)" using f2 by simp
  finally show ?thesis by simp
qed

lemma trim_nonempty_iff: "trim s \<noteq> [] \<longleftrightarrow> filter (\<lambda>c. \<not> isWhiteSpace c) s \<noteq> []"
  by (auto simp: trim_empty_iff list_all_iff filter_empty_conv)

lemma map_nonws:
  "\<forall>c. isWhiteSpace (f c) = isWhiteSpace c \<and> (\<not> isWhiteSpace c \<longrightarrow> f c = c) \<Longrightarrow>
   filter (\<lambda>c. \<not> isWhiteSpace c) (map f s) = filter (\<lambda>c. \<not> isWhiteSpace c) s"
  by (induction s) auto

lemma spaced_trim:
  assumes "trim s \<noteq> []" and "isolated (\<lambda>c. c = 32) b s"
  shows "spaced (trim s)"
  using assms trim_ends[OF assms(1)] trim_isolated[OF assms(2)] by (simp add: spaced_def)

lemma spaced_fix:
  assumes "spaced s"
  shows "trim s = s" and "collapse (\<lambda>c. c = 32) [32] False s = s"
proof -
  show "trim s = s" using assms by (simp add: spaced_def trim_id)
  show "collapse (\<lambda>c. c = 32) [32] False s = s"
    using assms by (simp add: spaced_def collapse_id)
qed

lemma processModeA_spec:
  "processModeA t = trim (collapse (\<lambda>c. c = 32) [32] False (map (\<lambda>c. if c = 10 then 32 else c) t))"
  by (simp add: processModeA_def Let_def lines_to_spaces)

lemma finalCleanup_spec: "finalCleanup t = trim (collapse (\<lambda>c. c = 32) [32] False t)"
  by (simp add: finalCleanup_def spacesRx_def replaceStr_plus_Cls inRanges_space)

lemma processModeC_spec:
  "processModeC t = trim (collapse isWhiteSpace [32] False (filter (\<lambda>c. c \<noteq> 10) t))"
proof -
  have f: "concat (map (\<lambda>c. if c = 10 then [] else [c]) t) = filter (\<lambda>c. c \<noteq> 10) t"
    by (induction t) auto
  have i: "inRanges wsRanges = isWhiteSpace" by (rule ext) (simp add: isWhiteSpace_def)
  show ?thesis
    by (simp add: processModeC_def Let_def replaceStr_Chr replaceStr_plus_Cls f i)
qed

lemma unicodeSpaces_not32: "inRanges unicodeSpaces c \<Longrightarrow> c \<noteq> 32"
  by (auto simp: unicodeSpaces_def split: if_splits)

lemma no10_blankSep: "10 \<notin> set s \<Longrightarrow> \<not> blankSep b s"
  by (induction s arbitrary: b) auto

lemma nonws_normalize:
  "filter (\<lambda>c. \<not> isWhiteSpace c) (normalizeWhitespace t) = filter (\<lambda>c. \<not> isWhiteSpace c) t"
proof -
  have m: "filter (\<lambda>c. \<not> isWhiteSpace c) (map (\<lambda>c. if inRanges unicodeSpaces c then 32 else c) t)
           = filter (\<lambda>c. \<not> isWhiteSpace c) t"
    by (rule map_nonws) (use unicodeSpaces_ws ws32 in auto)
  show ?thesis
    using ws32 by (simp add: normalizeWhitespace_spec collapse_nonws m)
qed

lemma normalize_chars:
  "c \<in> set (normalizeWhitespace t) \<Longrightarrow> \<not> inRanges unicodeSpaces c"
proof -
  assume "c \<in> set (normalizeWhitespace t)"
  then have "c \<in> set (map (\<lambda>c. if inRanges unicodeSpaces c then 32 else c) t) \<union> set [32]"
    using collapse_set[of "\<lambda>c. c = 32" "[32]" False "map (\<lambda>c. if inRanges unicodeSpaces c then 32 else c) t"]
    by (auto simp: normalizeWhitespace_spec)
  then show ?thesis using unicodeSpaces_not32 by (auto split: if_splits)
qed

lemma normalize_fix:
  assumes "\<forall>c\<in>set s. \<not> inRanges unicodeSpaces c" and "isolated (\<lambda>c. c = 32) False s"
  shows "normalizeWhitespace s = s"
proof -
  have "map (\<lambda>c. if inRanges unicodeSpaces c then 32 else c) s = s"
    using assms(1) by (induction s) auto
  then show ?thesis using assms(2) by (simp add: normalizeWhitespace_spec collapse_id)
qed

lemma batch_fix_A:
  assumes "trim b \<noteq> []"
  defines "s \<equiv> processModeA (normalizeWhitespace b)"
  shows "spaced s" and "10 \<notin> set s" and "finalCleanup s = s" and "normalizeWhitespace s = s"
    and "processModeA s = s"
proof -
  let ?n = "normalizeWhitespace b"
  let ?m = "map (\<lambda>c. if c = 10 then 32 else c) ?n"
  let ?c = "collapse (\<lambda>c. c = 32) [32] False ?m"
  have s: "s = trim ?c" by (simp add: s_def processModeA_spec)
  have nw: "filter (\<lambda>c. \<not> isWhiteSpace c) ?c = filter (\<lambda>c. \<not> isWhiteSpace c) b"
  proof -
    have "filter (\<lambda>c. \<not> isWhiteSpace c) ?m = filter (\<lambda>c. \<not> isWhiteSpace c) ?n"
      by (rule map_nonws) (use ws10 ws32 in auto)
    then show ?thesis using ws32 by (simp add: collapse_nonws nonws_normalize)
  qed
  have ne: "trim ?c \<noteq> []" using assms(1) nw by (simp add: trim_nonempty_iff)
  have iso: "isolated (\<lambda>c. c = 32) False ?c" by (simp add: collapse_isolated)
  show sp: "spaced s" unfolding s using ne iso by (rule spaced_trim)
  have chars: "\<forall>c\<in>set s. c \<noteq> 10 \<and> \<not> inRanges unicodeSpaces c"
  proof
    fix c assume "c \<in> set s"
    then have "c \<in> set ?c" using trim_set s by blast
    then have "c \<in> set ?m \<or> c = 32"
      using collapse_set[of "\<lambda>c. c = 32" "[32]" False ?m] by auto
    then show "c \<noteq> 10 \<and> \<not> inRanges unicodeSpaces c"
      using normalize_chars[of _ b] unicodeSpaces_not32 by (auto split: if_splits)
  qed
  show n10: "10 \<notin> set s" using chars by blast
  show fc: "finalCleanup s = s" using sp by (simp add: finalCleanup_spec spaced_fix)
  show "normalizeWhitespace s = s"
    using chars sp by (simp add: normalize_fix spaced_def)
  have "map (\<lambda>c. if c = 10 then 32 else c) s = s" using n10 by (induction s) auto
  then show "processModeA s = s" using sp by (simp add: processModeA_spec spaced_fix)
qed

lemma isolated_mono:
  "isolated P b s \<Longrightarrow> (\<And>c. Q c \<Longrightarrow> P c) \<Longrightarrow> isolated Q False s"
proof (induction s arbitrary: b)
  case Nil
  show ?case by simp
next
  case (Cons c s)
  have "isolated P (P c) s" using Cons.prems(1) by simp
  then have t: "isolated Q False s" using Cons.prems(2) by (rule Cons.IH)
  show ?case
  proof (cases "Q c")
    case True
    then have "P c" by (rule Cons.prems(2))
    then have "isolated P True s" using Cons.prems(1) by simp
    then have "isolated Q True s"
      using Cons.prems(2) t by (cases s) auto
    then show ?thesis using True by simp
  next
    case False
    then show ?thesis using t by simp
  qed
qed

lemma batch_fix_C:
  assumes "trim b \<noteq> []"
  defines "s \<equiv> processModeC (normalizeWhitespace b)"
  shows "spaced s" and "10 \<notin> set s" and "finalCleanup s = s" and "normalizeWhitespace s = s"
    and "processModeC s = s"
proof -
  let ?n = "normalizeWhitespace b"
  let ?f = "filter (\<lambda>c. c \<noteq> 10) ?n"
  let ?c = "collapse isWhiteSpace [32] False ?f"
  have s: "s = trim ?c" by (simp add: s_def processModeC_spec)
  have nw: "filter (\<lambda>c. \<not> isWhiteSpace c) ?c = filter (\<lambda>c. \<not> isWhiteSpace c) b"
  proof -
    have "filter (\<lambda>c. \<not> isWhiteSpace c) ?f = filter (\<lambda>c. \<not> isWhiteSpace c) ?n"
      using ws10 by (induction ?n) (auto simp: filter_id_conv intro: filter_cong)
    then show ?thesis using ws32 by (simp add: collapse_nonws nonws_normalize)
  qed
  have ne: "trim ?c \<noteq> []" using assms(1) nw by (simp add: trim_nonempty_iff)
  have isoW: "isolated isWhiteSpace False ?c" using ws32 by (simp add: collapse_isolated)
  have isoWs: "isolated isWhiteSpace False s" unfolding s using isoW by (rule trim_isolated)
  have iso: "isolated (\<lambda>c. c = 32) False ?c" using isoW by (rule isolated_mono) (simp add: ws32)
  show sp: "spaced s" unfolding s using ne iso by (rule spaced_trim)
  have chars: "\<forall>c\<in>set s. isWhiteSpace c \<longrightarrow> c = 32"
  proof
    fix c assume "c \<in> set s"
    then have "c \<in> set ?c" using trim_set s by blast
    then show "isWhiteSpace c \<longrightarrow> c = 32"
      using collapse_chars[of isWhiteSpace "[32]" False ?f] by auto
  qed
  show n10: "10 \<notin> set s" using chars ws10 by auto
  show fc: "finalCleanup s = s" using sp by (simp add: finalCleanup_spec spaced_fix)
  have "\<forall>c\<in>set s. \<not> inRanges unicodeSpaces c"
    using chars unicodeSpaces_ws unicodeSpaces_not32 by blast
  then show "normalizeWhitespace s = s" using sp by (simp add: normalize_fix spaced_def)
  have "filter (\<lambda>c. c \<noteq> 10) s = s" using n10 by (induction s) auto
  then show "processModeC s = s"
    using sp chars isoWs by (simp add: processModeC_spec collapse_id spaced_fix)
qed

lemma spaced_batchText: "spaced s \<Longrightarrow> \<not> blankSep False s \<Longrightarrow> batchText s"
  by (simp add: spaced_def batchText_def)

lemma blankSep_trim: "blankSep False (trim s) \<Longrightarrow> blankSep False s"
proof -
  assume t: "blankSep False (trim s)"
  obtain a c where d: "s = a @ trim s @ c" using trim_decomp by blast
  have "blankSep (sepState False a) (trim s)" using t by (rule blankSep_mono) simp
  then have "blankSep False (a @ trim s @ c)" by (simp add: blankSep_append)
  then show ?thesis using d by simp
qed

lemma batch_fix_N:
  assumes "trim b \<noteq> []"
  defines "s \<equiv> finalCleanup (normalizeWhitespace b)"
  shows "spaced s" and "finalCleanup s = s" and "normalizeWhitespace s = s"
    and "blankSep False s \<Longrightarrow> blankSep False b"
proof -
  let ?n = "normalizeWhitespace b"
  have iso: "isolated (\<lambda>c. c = 32) False ?n"
    by (simp add: normalizeWhitespace_spec collapse_isolated)
  have c: "collapse (\<lambda>c. c = 32) [32] False ?n = ?n" using iso by (simp add: collapse_id)
  have s: "s = trim ?n" by (simp add: s_def finalCleanup_spec c)
  have ne: "trim ?n \<noteq> []" using assms(1) by (simp add: trim_nonempty_iff nonws_normalize)
  show sp: "spaced s" unfolding s using ne iso by (rule spaced_trim)
  show "finalCleanup s = s" using sp by (simp add: finalCleanup_spec spaced_fix)
  have "\<forall>c\<in>set s. \<not> inRanges unicodeSpaces c"
    using trim_set[of ?n] normalize_chars[of _ b] s by blast
  then show "normalizeWhitespace s = s" using sp by (simp add: normalize_fix spaced_def)
  show "blankSep False s \<Longrightarrow> blankSep False b"
    using blankSep_trim[of ?n] by (simp add: s normalizeWhitespace_blankSep)
qed

lemma jsmodes: "js ''A'' \<noteq> js ''B''" "js ''A'' \<noteq> js ''C''" "js ''B'' \<noteq> js ''C''"
  by (simp_all add: js_def)

lemma batchOut_fix:
  assumes t: "trim b \<noteq> []" and n: "\<not> blankSep False b"
  shows "batchText (batchOut m b)" and "batchOut m (batchOut m b) = batchOut m b"
proof -
  have nb: "\<not> blankSep False (normalizeWhitespace b)" using n by (simp add: normalizeWhitespace_blankSep)
  consider (A) "m = js ''A''" | (B) "m = js ''B''" | (C) "m = js ''C''"
    | (N) "m \<noteq> js ''A''" "m \<noteq> js ''B''" "m \<noteq> js ''C''" by blast
  then have "batchText (batchOut m b) \<and> batchOut m (batchOut m b) = batchOut m b"
  proof cases
    case A
    let ?s = "processModeA (normalizeWhitespace b)"
    have o: "batchOut m b = ?s" using A batch_fix_A(3)[OF t] by (simp add: batchOut_def)
    have "batchOut m ?s = ?s"
      using A batch_fix_A(3,4,5)[OF t] by (simp add: batchOut_def)
    moreover have "batchText ?s"
      using batch_fix_A(1,2)[OF t] by (simp add: spaced_batchText no10_blankSep)
    ultimately show ?thesis by (simp add: o)
  next
    case B
    let ?s = "processModeA (normalizeWhitespace b)"
    have ns: "\<not> blankSep False ?s" using batch_fix_A(2)[OF t] by (simp add: no10_blankSep)
    have o: "batchOut m b = ?s"
      using B batch_fix_A(3)[OF t] processModeB_single[OF nb] jsmodes by (simp add: batchOut_def)
    have "batchOut m ?s = ?s"
      using B batch_fix_A(3,4,5)[OF t] processModeB_single[OF ns] jsmodes by (simp add: batchOut_def)
    moreover have "batchText ?s"
      using batch_fix_A(1)[OF t] ns by (simp add: spaced_batchText)
    ultimately show ?thesis by (simp add: o)
  next
    case C
    let ?s = "processModeC (normalizeWhitespace b)"
    have o: "batchOut m b = ?s" using C batch_fix_C(3)[OF t] jsmodes by (simp add: batchOut_def)
    have "batchOut m ?s = ?s"
      using C batch_fix_C(3,4,5)[OF t] jsmodes by (simp add: batchOut_def)
    moreover have "batchText ?s"
      using batch_fix_C(1,2)[OF t] by (simp add: spaced_batchText no10_blankSep)
    ultimately show ?thesis by (simp add: o)
  next
    case N
    let ?s = "finalCleanup (normalizeWhitespace b)"
    have o: "batchOut m b = ?s" using N by (simp add: batchOut_def)
    have "batchOut m ?s = ?s"
      using N batch_fix_N(2,3)[OF t] by (simp add: batchOut_def)
    moreover have "\<not> blankSep False ?s" using batch_fix_N(4)[OF t] n by blast
    then have "batchText ?s" using batch_fix_N(1)[OF t] by (simp add: spaced_batchText)
    ultimately show ?thesis by (simp add: o)
  qed
  then show "batchText (batchOut m b)" and "batchOut m (batchOut m b) = batchOut m b" by simp_all
qed

lemma processBatch_plain:
  assumes "noMatch patterns b" and "length b \<le> maxStringLength" and "protectedMap st = []"
  shows "processBatch b st = (Inr (batchOut (mode st) b), st)"
  using assms
  by (simp add: processBatch_def protectContent_noMatch restore_empty batchOut_def Let_def)

lemma mapBatches_plain:
  assumes "\<forall>b\<in>set bs. noMatch patterns b \<and> length b \<le> maxStringLength" and "protectedMap st = []"
  shows "mapBatches processBatch bs st = (Inr (map (batchOut (mode st)) bs), st)"
  using assms by (induction bs) (simp_all add: processBatch_plain)

lemma updateOutputStats_out: "outputText (updateOutputStats a b s) = outputText s"
  by (simp add: updateOutputStats_def Let_def)

lemma displayOutput_out: "outputText (displayOutput a b s) = b"
  by (simp add: displayOutput_def Let_def verifier_out updateOutputStats_out)

lemma splitIntoBatches_Nil: "splitIntoBatches [] = []"
  by code_simp

lemma processText_plain:
  assumes "\<forall>b\<in>set (splitIntoBatches (trim x)). noMatch patterns b \<and> length b \<le> maxStringLength"
    and "length (joinStr [10, 10] (map (batchOut (mode st)) (splitIntoBatches (trim x)))) \<le> maxStringLength"
  shows "outputText (processText x st) =
           joinStr [10, 10] (map (batchOut (mode st)) (splitIntoBatches (trim x)))"
proof (cases "trim x = []")
  case True
  then show ?thesis by (simp add: processText_def splitIntoBatches_Nil)
next
  case False
  have m: "mapBatches processBatch (splitIntoBatches (trim x)) (st\<lparr>protectedMap := [], nextTokenId := 1\<rparr>)
           = (Inr (map (batchOut (mode st)) (splitIntoBatches (trim x))), st\<lparr>protectedMap := [], nextTokenId := 1\<rparr>)"
    using mapBatches_plain[OF assms(1), of "st\<lparr>protectedMap := [], nextTokenId := 1\<rparr>"] by simp
  show ?thesis
    using False m assms(2)
    by (simp add: processText_def tryBatches_def Let_def newString_fits displayOutput_out)
qed

lemma joinStr_interleave:
  "joinStr sep (b0 # bs) = interleave b0 (map (\<lambda>b. (sep, b)) bs)"
  by (induction bs arbitrary: b0) simp_all

lemma blankLines_nn: "blankLines [10, 10]"
  by (simp add: blankLines_def ws10)

lemma idem_batches:
  fixes m :: jsstring
  assumes t: "\<forall>b\<in>set bs. trim b \<noteq> [] \<and> \<not> blankSep False b"
  defines "y \<equiv> joinStr [10, 10] (map (batchOut m) bs)"
  shows "trim y = y" and "splitIntoBatches y = map (batchOut m) bs"
proof -
  have "trim y = y \<and> splitIntoBatches y = map (batchOut m) bs"
  proof (cases bs)
    case Nil
    then show ?thesis by (simp add: y_def splitIntoBatches_Nil trim_def trimStart_def trimEnd_def)
  next
    case (Cons b0 rest)
    let ?r = "map (\<lambda>b. ([10, 10] :: jsstring, b)) (map (batchOut m) rest)"
    have y: "y = interleave (batchOut m b0) ?r"
      by (simp add: y_def Cons joinStr_interleave)
    have b0: "batchText (batchOut m b0)" using t Cons by (simp add: batchOut_fix(1))
    have r: "\<forall>(sep, b) \<in> set ?r. blankLines sep \<and> batchText b"
      using t Cons by (auto simp: blankLines_nn batchOut_fix(1))
    have "splitIntoBatches y = batchOut m b0 # map snd ?r"
      unfolding y using b0 r by (rule splitIntoBatches_interleave)
    moreover have "map snd ?r = map (batchOut m) rest" by (simp add: comp_def)
    moreover have "trim y = y" unfolding y using b0 r by (rule trim_interleave)
    ultimately show ?thesis by (simp add: Cons)
  qed
  then show "trim y = y" and "splitIntoBatches y = map (batchOut m) bs" by simp_all
qed

lemma splitIntoBatches_batches:
  "b \<in> set (splitIntoBatches t) \<Longrightarrow> trim b \<noteq> [] \<and> \<not> blankSep False b"
  using splitIntoBatches_no_blank[of b t] by (simp add: splitIntoBatches_def)
section \<open>Restoration of a text with tokens\<close>

lemma isMarker_shape: "isMarker t \<Longrightarrow> \<exists>b. t = marker b \<and> goodBody b"
  by (auto simp: isMarker_def Let_def)

lemma scan_lit_indep: "scan flagsG (lit k) p s = scan flagsG (lit k) q s"
  by (simp add: scan.simps[of flagsG "lit k" p s] scan.simps[of flagsG "lit k" q s] matchLen_lit)

lemma scan_lit_step:
  assumes "\<not> startsWith (c # s) k"
  shows "scan flagsG (lit k) p (c # s) = Lit c # scan flagsG (lit k) q s"
proof -
  have "scan flagsG (lit k) p (c # s) = Lit c # scan flagsG (lit k) (Some c) s"
    using assms by (subst scan.simps) (simp add: matchLen_lit)
  then show ?thesis using scan_lit_indep[of k "Some c" s q] by simp
qed

lemma scan_lit_skip:
  assumes "\<forall>j < length b. \<not> startsWith (drop j b @ y) k"
  shows "scan flagsG (lit k) p (b @ y) = map Lit b @ scan flagsG (lit k) p y"
  using assms
proof (induction b)
  case Nil
  show ?case by simp
next
  case (Cons c b)
  have n: "\<not> startsWith (c # b @ y) k" using Cons.prems by force
  have "\<forall>j < length b. \<not> startsWith (drop j b @ y) k"
  proof (intro allI impI)
    fix j assume "j < length b"
    then have "\<not> startsWith (drop (Suc j) (c # b) @ y) k" using Cons.prems by (metis Suc_less_eq length_Cons)
    then show "\<not> startsWith (drop j b @ y) k" by simp
  qed
  then have "scan flagsG (lit k) p (b @ y) = map Lit b @ scan flagsG (lit k) p y" by (rule Cons.IH)
  then show ?case using scan_lit_step[OF n, of p p] by simp
qed

lemma scan_lit_hit:
  assumes "k \<noteq> []"
  shows "scan flagsG (lit k) p (k @ y) = Mat k # scan flagsG (lit k) p y"
proof -
  have s: "startsWith (k @ y) k" by (induction k) auto
  have "scan flagsG (lit k) p (k @ y) = Mat k # scan flagsG (lit k) (Some (last k)) y"
    using assms s by (subst scan.simps) (simp add: matchLen_lit)
  then show ?thesis using scan_lit_indep[of k "Some (last k)" y p] by simp
qed

subsection \<open>Tokens in a text of pieces\<close>

lemma startsWith_append: "startsWith (u @ x) (u @ w) = startsWith x w"
  by (induction u) auto

lemma clean_first:
  assumes "list_all cleanPiece ps" and "flat ps = c # x"
  shows "(c \<noteq> 95 \<and> (\<exists>qs. list_all cleanPiece qs \<and> x = flat qs)) \<or>
         (c = 95 \<and> (\<exists>z. x = 95 # z))"
proof (cases ps)
  case Nil
  then show ?thesis using assms(2) by (simp add: flat_def)
next
  case (Cons q qs)
  show ?thesis
  proof (cases q)
    case (Ch d)
    then show ?thesis using assms Cons by (auto simp: flat_def)
  next
    case (Tk t)
    then obtain b where "t = marker b" using assms(1) Cons isMarker_shape by auto
    then show ?thesis using assms(2) Cons Tk by (auto simp: flat_def marker_def)
  qed
qed

lemma clean_prefix:
  assumes "list_all cleanPiece ps" and "95 \<notin> set u" and "startsWith (flat ps) (u @ w)"
  shows "\<exists>qs. list_all cleanPiece qs \<and> startsWith (flat qs) w"
  using assms
proof (induction u arbitrary: ps)
  case Nil
  then show ?case by auto
next
  case (Cons c u)
  obtain x where f: "flat ps = c # x" and s: "startsWith x (u @ w)"
    using Cons.prems(3) by (cases "flat ps") auto
  have "c \<noteq> 95" using Cons.prems(2) by simp
  then obtain qs where "list_all cleanPiece qs" and "x = flat qs"
    using clean_first[OF Cons.prems(1) f] by auto
  then show ?case using Cons.IH[of qs] Cons.prems(2) s by simp
qed

lemma clean_underscore:
  assumes "list_all cleanPiece ps" and "startsWith (flat ps) (95 # d # w)"
  shows "d = 95"
proof -
  obtain x where f: "flat ps = 95 # x" and s: "startsWith x (d # w)"
    using assms(2) by (cases "flat ps") auto
  obtain z where "x = 95 # z" using clean_first[OF assms(1) f] by auto
  then show ?thesis using s by simp
qed

lemma body_eq:
  assumes "isolated (\<lambda>c. c = 95) f bt" and "bt \<noteq> [] \<longrightarrow> last bt \<noteq> 95"
    and "isolated (\<lambda>c. c = 95) g bk" and "bk \<noteq> [] \<longrightarrow> last bk \<noteq> 95"
    and "startsWith (bt @ 95 # 95 # x) (bk @ [95, 95])"
  shows "bt = bk"
  using assms
proof (induction bt arbitrary: bk f g)
  case Nil
  show ?case
  proof (cases bk)
    case Nil
    then show ?thesis by simp
  next
    case (Cons c bk')
    then show ?thesis using Nil.prems by (cases bk') (auto split: if_splits)
  qed
next
  case (Cons c bt')
  show ?case
  proof (cases bk)
    case Nil
    then show ?thesis using Cons.prems by (cases bt') (auto split: if_splits)
  next
    case (Cons e bk')
    have ce: "c = e" and s: "startsWith (bt' @ 95 # 95 # x) (bk' @ [95, 95])"
      using Cons.prems(5) Cons by simp_all
    have "bt' = bk'"
    proof (rule Cons.IH)
      show "isolated (\<lambda>c. c = 95) (c = 95) bt'" using Cons.prems(1) by simp
      show "bt' \<noteq> [] \<longrightarrow> last bt' \<noteq> 95" using Cons.prems(2) by (auto split: if_splits)
      show "isolated (\<lambda>c. c = 95) (e = 95) bk'" using Cons.prems(3) Cons by simp
      show "bk' \<noteq> [] \<longrightarrow> last bk' \<noteq> 95" using Cons.prems(4) Cons by (auto split: if_splits)
      show "startsWith (bt' @ 95 # 95 # x) (bk' @ [95, 95])" by (rule s)
    qed
    then show ?thesis using ce Cons by simp
  qed
qed

lemma body_inner:
  assumes "isolated (\<lambda>c. c = 95) f b" and "b \<noteq> [] \<longrightarrow> last b \<noteq> 95" and "j < length b"
  shows "\<not> startsWith (drop j b @ y) (95 # 95 # z)"
  using assms
proof (induction b arbitrary: j f)
  case Nil
  then show ?case by simp
next
  case (Cons c b)
  show ?case
  proof (cases j)
    case 0
    then show ?thesis using Cons.prems by (cases b) (auto split: if_splits)
  next
    case (Suc i)
    have "\<not> startsWith (drop i b @ y) (95 # 95 # z)"
    proof (rule Cons.IH)
      show "isolated (\<lambda>c. c = 95) (c = 95) b" using Cons.prems(1) by simp
      show "b \<noteq> [] \<longrightarrow> last b \<noteq> 95" using Cons.prems(2) by (auto split: if_splits)
      show "i < length b" using Cons.prems(3) Suc by simp
    qed
    then show ?thesis using Suc by simp
  qed
qed

lemma after_token:
  assumes "list_all cleanPiece rest" and "goodBody bk"
  shows "\<not> startsWith (flat rest) (bk @ w)"
proof
  assume s: "startsWith (flat rest) (bk @ w)"
  have "95 \<in> set bk" using assms(2) by (simp add: goodBody_def)
  then obtain u v where bk: "bk = u @ 95 # v" and u: "95 \<notin> set u"
    by (meson split_list_first)
  have "isolated (\<lambda>c. c = 95) False (u @ 95 # v)" using assms(2) bk by (simp add: goodBody_def)
  then have "isolated (\<lambda>c. c = 95) False (95 # v)" by (rule isolated_append_right)
  then have i: "isolated (\<lambda>c. c = 95) True v" by simp
  have "last bk \<noteq> 95" using assms(2) by (simp add: goodBody_def)
  then have "v \<noteq> []" using bk by auto
  then obtain d v' where v: "v = d # v'" by (cases v) auto
  have d: "d \<noteq> 95" using i v by simp
  have "startsWith (flat rest) (u @ (95 # d # v' @ w))" using s bk v by simp
  then obtain qs where q: "list_all cleanPiece qs" and "startsWith (flat qs) (95 # d # v' @ w)"
    using clean_prefix[OF assms(1) u] by blast
  then have "d = 95" using clean_underscore by blast
  then show False using d by simp
qed

lemma token_skip:
  assumes t: "isMarker t" and k: "isMarker k" and ne: "t \<noteq> k" and c: "list_all cleanPiece rest"
  shows "scan flagsG (lit k) p (t @ flat rest) = map Lit t @ scan flagsG (lit k) p (flat rest)"
proof -
  obtain bt where bt: "t = marker bt" and gt: "goodBody bt" using t isMarker_shape by blast
  obtain bk where bk: "k = marker bk" and gk: "goodBody bk" using k isMarker_shape by blast
  let ?x = "flat rest"
  have it: "isolated (\<lambda>c. c = 95) False bt" and lt: "bt \<noteq> [] \<longrightarrow> last bt \<noteq> 95"
    and ht: "bt \<noteq> []" "hd bt \<noteq> 95"
    using gt by (simp_all add: goodBody_def)
  have ik: "isolated (\<lambda>c. c = 95) False bk" and lk: "bk \<noteq> [] \<longrightarrow> last bk \<noteq> 95"
    and hk: "bk \<noteq> []" "hd bk \<noteq> 95"
    using gk by (simp_all add: goodBody_def)
  have n0: "\<not> startsWith (95 # 95 # bt @ 95 # 95 # ?x) k"
  proof
    assume "startsWith (95 # 95 # bt @ 95 # 95 # ?x) k"
    then have "startsWith (bt @ 95 # 95 # ?x) (bk @ [95, 95])" by (simp add: bk marker_def)
    then have "bt = bk" using body_eq[OF it lt ik lk] by blast
    then show False using ne bt bk by simp
  qed
  have n1: "\<not> startsWith (95 # bt @ 95 # 95 # ?x) k"
    using ht by (cases bt) (auto simp: bk marker_def)
  have n2: "\<forall>j < length bt. \<not> startsWith (drop j bt @ 95 # 95 # ?x) k"
    using body_inner[OF it lt] by (simp add: bk marker_def)
  have n3: "\<not> startsWith (95 # 95 # ?x) k"
    using after_token[OF c gk, of "[95, 95]"] by (simp add: bk marker_def)
  have n4: "\<not> startsWith (95 # ?x) k"
  proof
    assume "startsWith (95 # ?x) k"
    then have s: "startsWith ?x (95 # bk @ [95, 95])" by (simp add: bk marker_def)
    obtain d b' where b: "bk = d # b'" using hk by (cases bk) auto
    have "d = 95" using s clean_underscore[OF c, of d "b' @ [95, 95]"] by (simp add: b)
    then show False using hk b by simp
  qed
  have "scan flagsG (lit k) p (t @ ?x) = scan flagsG (lit k) p (95 # 95 # bt @ 95 # 95 # ?x)"
    by (simp add: bt marker_def)
  also have "\<dots> = Lit 95 # scan flagsG (lit k) p (95 # bt @ 95 # 95 # ?x)"
    using n0 by (rule scan_lit_step)
  also have "scan flagsG (lit k) p (95 # bt @ 95 # 95 # ?x) = Lit 95 # scan flagsG (lit k) p (bt @ 95 # 95 # ?x)"
    using n1 by (rule scan_lit_step)
  also have "scan flagsG (lit k) p (bt @ 95 # 95 # ?x) = map Lit bt @ scan flagsG (lit k) p (95 # 95 # ?x)"
    using n2 by (rule scan_lit_skip)
  also have "scan flagsG (lit k) p (95 # 95 # ?x) = Lit 95 # scan flagsG (lit k) p (95 # ?x)"
    using n3 by (rule scan_lit_step)
  also have "scan flagsG (lit k) p (95 # ?x) = Lit 95 # scan flagsG (lit k) p ?x"
    using n4 by (rule scan_lit_step)
  finally show ?thesis by (simp add: bt marker_def)
qed

lemma plainSegs_append_Lit: "plainSegs rep (map Lit t @ segs) = t @ plainSegs rep segs"
  by (induction t) auto

lemma isMarker_nonempty: "isMarker k \<Longrightarrow> k \<noteq> [] \<and> hd k = 95"
  using isMarker_shape[of k] by (auto simp: marker_def)

lemma replace_pieces:
  assumes k: "isMarker k" and c: "list_all cleanPiece ps"
  shows "plainSegs orig (scan flagsG (lit k) p (flat ps)) =
           concat (map (\<lambda>q. if q = Tk k then orig else pieceText q) ps)"
  using c
proof (induction ps)
  case Nil
  have "\<not> startsWith [] k" using isMarker_nonempty[OF k] by (cases k) auto
  then show ?case by (subst scan.simps) (simp add: flat_def matchLen_lit)
next
  case (Cons q ps)
  have ih: "plainSegs orig (scan flagsG (lit k) p (flat ps)) =
           concat (map (\<lambda>q. if q = Tk k then orig else pieceText q) ps)"
    using Cons by simp
  have cp: "list_all cleanPiece ps" using Cons.prems by simp
  have f: "\<And>q. flat (q # ps) = pieceText q @ flat ps" by (simp add: flat_def)
  show ?case
  proof (cases q)
    case (Ch d)
    have "d \<noteq> 95" using Cons.prems Ch by simp
    then have "\<not> startsWith (d # flat ps) k" using isMarker_nonempty[OF k] by (cases k) auto
    then have "scan flagsG (lit k) p (d # flat ps) = Lit d # scan flagsG (lit k) p (flat ps)"
      by (rule scan_lit_step)
    then show ?thesis using ih by (simp add: f Ch)
  next
    case (Tk t)
    have mt: "isMarker t" using Cons.prems Tk by simp
    show ?thesis
    proof (cases "t = k")
      case True
      have "scan flagsG (lit k) p (k @ flat ps) = Mat k # scan flagsG (lit k) p (flat ps)"
        using isMarker_nonempty[OF k] by (simp add: scan_lit_hit)
      then show ?thesis using ih by (simp add: f Tk True)
    next
      case False
      have "scan flagsG (lit k) p (t @ flat ps) = map Lit t @ scan flagsG (lit k) p (flat ps)"
        using mt k False cp by (rule token_skip)
      then show ?thesis using ih False by (simp add: f Tk plainSegs_append_Lit)
    qed
  qed
qed

lemma replaceStr_pieces:
  assumes "isMarker k" and "list_all cleanPiece ps" and "36 \<notin> set orig"
  shows "replaceStr flagsG (regExpOfEscaped (escapeRegExp k)) orig (flat ps) =
           flat (concat (map (\<lambda>q. if q = Tk k then map Ch orig else [q]) ps))"
proof -
  have "concat (map (\<lambda>q. if q = Tk k then orig else pieceText q) ps) =
        flat (concat (map (\<lambda>q. if q = Tk k then map Ch orig else [q]) ps))"
  proof (induction ps)
    case Nil
    show ?case by (simp add: flat_def)
  next
    case (Cons q ps)
    have m: "concat (map (pieceText \<circ> Ch) orig) = orig" by (induction orig) auto
    show ?case using Cons by (simp add: flat_def m)
  qed
  then show ?thesis
    using assms by (simp add: replaceStr_def regExpOfEscaped_escape replaceSegs_plain replace_pieces)
qed

lemma fill_clean:
  assumes "list_all cleanPiece ps" and "95 \<notin> set orig"
  shows "list_all cleanPiece (concat (map (\<lambda>q. if q = Tk k then map Ch orig else [q]) ps))"
  using assms by (induction ps) (auto simp: list_all_iff)

lemma fill_resolve:
  "concat (map (resolve m) (concat (map (\<lambda>q. if q = Tk k then map Ch orig else [q]) ps))) =
   concat (map (resolve ((k, orig) # m)) ps)"
proof (induction ps)
  case Nil
  show ?case by simp
next
  case (Cons q ps)
  have c: "concat (map (resolve m \<circ> Ch) orig) = orig" by (induction orig) auto
  show ?case using Cons by (cases q) (auto simp: c)
qed

lemma pieceText_bound: "length (flat ps) = sum_list (map (\<lambda>p. length (pieceText p)) ps)"
  by (induction ps) (simp_all add: flat_def)

lemma fill_room:
  assumes "roomFor ((k, orig) # m) ps"
  shows "roomFor m (concat (map (\<lambda>q. if q = Tk k then map Ch orig else [q]) ps))"
    and "length (flat (concat (map (\<lambda>q. if q = Tk k then map Ch orig else [q]) ps))) \<le> maxStringLength"
proof -
  let ?g = "\<lambda>q. if q = Tk k then map Ch orig else [q]"
  let ?b = "\<lambda>m p. max (length (pieceText p)) (length (resolve m p))"
  have c: "sum_list (map (?b m \<circ> Ch) orig) = length orig" by (induction orig) auto
  have p: "\<And>q. sum_list (map (?b m) (?g q)) \<le> ?b ((k, orig) # m) q"
  proof -
    fix q show "sum_list (map (?b m) (?g q)) \<le> ?b ((k, orig) # m) q"
      by (cases q) (auto simp: c)
  qed
  have "sum_list (map (?b m) (concat (map ?g ps))) \<le> sum_list (map (?b ((k, orig) # m)) ps)"
  proof (induction ps)
    case Nil
    show ?case by simp
  next
    case (Cons q ps)
    show ?case using Cons p[of q] by simp
  qed
  then show r: "roomFor m (concat (map ?g ps))" using assms by (simp add: roomFor_def)
  have "sum_list (map (\<lambda>p. length (pieceText p)) (concat (map ?g ps))) \<le> sum_list (map (?b m) (concat (map ?g ps)))"
    by (rule sum_list_mono) simp
  then show "length (flat (concat (map ?g ps))) \<le> maxStringLength"
    using r by (simp add: pieceText_bound roomFor_def)
qed

lemma restore_pieces:
  assumes "\<forall>(tok, orig) \<in> set m. isMarker tok \<and> 95 \<notin> set orig \<and> 36 \<notin> set orig"
    and "list_all cleanPiece ps" and "roomFor m ps"
  shows "foldl tryRestore (Inr (flat ps)) m = Inr (concat (map (resolve m) ps))"
  using assms
proof (induction m arbitrary: ps)
  case Nil
  have "\<And>q. resolve [] q = pieceText q"
  proof -
    fix q show "resolve [] q = pieceText q" by (cases q) auto
  qed
  then show ?case by (simp add: flat_def)
next
  case (Cons e m)
  obtain k orig where e: "e = (k, orig)" by (cases e) auto
  have k: "isMarker k" and o: "95 \<notin> set orig" "36 \<notin> set orig" using Cons.prems(1) e by auto
  let ?ps = "concat (map (\<lambda>q. if q = Tk k then map Ch orig else [q]) ps)"
  have r: "replaceStr flagsG (regExpOfEscaped (escapeRegExp k)) orig (flat ps) = flat ?ps"
    using k Cons.prems(2) o(2) by (rule replaceStr_pieces)
  have c: "list_all cleanPiece ?ps" using Cons.prems(2) o(1) by (rule fill_clean)
  have room: "roomFor m ?ps" and len: "length (flat ?ps) \<le> maxStringLength"
    using Cons.prems(3) fill_room[of k orig m ps] by (simp_all add: e)
  have step: "tryRestore (Inr (flat ps)) e = Inr (flat ?ps)"
    using len by (simp add: tryRestore_def e r newString_fits)
  have "foldl tryRestore (Inr (flat ?ps)) m = Inr (concat (map (resolve m) ?ps))"
    using Cons.prems(1) c room by (intro Cons.IH) auto
  then show ?case by (simp add: step[unfolded e] e fill_resolve)
qed




section \<open>Lengths\<close>

lemma joinStr_length:
  "length (joinStr sep xs) = sum_list (map length xs) + length sep * (length xs - 1)"
  by (induction sep xs rule: joinStr.induct) simp_all

lemma joinStr_map_le:
  assumes "\<forall>b\<in>set xs. length (g b) \<le> length b"
  shows "length (joinStr sep (map g xs)) \<le> length (joinStr sep xs)"
proof -
  have "sum_list (map length (map g xs)) \<le> sum_list (map length xs)"
    using assms by (induction xs) auto
  then show ?thesis by (simp add: joinStr_length)
qed

lemma joinStr_filter_le: "length (joinStr sep (filter P xs)) \<le> length (joinStr sep xs)"
proof -
  have s: "sum_list (map length (filter P xs)) \<le> sum_list (map length xs)"
    by (induction xs) auto
  have "length (filter P xs) - 1 \<le> length xs - 1" by (simp add: diff_le_mono)
  then have "length sep * (length (filter P xs) - 1) \<le> length sep * (length xs - 1)" by simp
  then show ?thesis using s by (simp add: joinStr_length add_mono)
qed

lemma matchLen_blankLine_two: "matchLen flagsG blankLineRx p s = Some n \<Longrightarrow> 2 \<le> n \<and> n \<le> length s"
proof (cases s)
  case Nil
  assume "matchLen flagsG blankLineRx p s = Some n"
  then show ?thesis using Nil by (simp add: matchLen_def ms_blankLine)
next
  case (Cons c r)
  assume m: "matchLen flagsG blankLineRx p s = Some n"
  then obtain x xs where x: "concat (map nlNext (starStates isWhiteSpace (Some 10) r [])) = x # xs"
    and n: "n = length s - length (fst (snd x))"
    using Cons by (auto simp: matchLen_def ms_blankLine split: list.splits if_splits)
  have "x \<in> set (concat (map nlNext (starStates isWhiteSpace (Some 10) r [])))" using x by simp
  then have "length (fst (snd x)) < length r" by (rule nlNext_star_len)
  then show ?thesis using n Cons by simp
qed

lemma splitLoop_nonempty: "splitLoop fl r p cur s \<noteq> []"
proof (induction s arbitrary: p cur)
  case Nil
  show ?case by (subst splitLoop.simps) simp
next
  case (Cons c t)
  show ?case by (subst splitLoop.simps) (simp add: Cons split: option.splits)
qed

lemma splitLoop_length:
  "length (joinStr [10, 10] (splitLoop flagsG blankLineRx p cur s)) \<le> length cur + length s"
proof (induction s arbitrary: p cur rule: length_induct)
  case (1 s)
  show ?case
  proof (cases s)
    case Nil
    then show ?thesis by (subst splitLoop.simps) simp
  next
    case (Cons c t)
    show ?thesis
    proof (cases "matchLen flagsG blankLineRx p s")
      case None
      have "length t < length s" using Cons by simp
      then have "length (joinStr [10, 10] (splitLoop flagsG blankLineRx (Some c) (cur @ [c]) t)) \<le> length (cur @ [c]) + length t"
        using 1 by blast
      then show ?thesis using None Cons by (subst splitLoop.simps) simp
    next
      case (Some n)
      have n: "2 \<le> n" "n \<le> length s" using Some matchLen_blankLine_two by blast+
      let ?rest = "splitLoop flagsG blankLineRx (Some (last (take n s))) [] (drop n s)"
      have "length (drop n s) < length s" using n Cons by simp
      then have "length (joinStr [10, 10] ?rest) \<le> length ([] :: jsstring) + length (drop n s)"
        using 1 by blast
      then have ih: "length (joinStr [10, 10] ?rest) \<le> length (drop n s)" by simp
      have ne: "?rest \<noteq> []" by (rule splitLoop_nonempty)
      have e: "splitLoop flagsG blankLineRx p cur s = cur # ?rest"
        using Some n Cons by (subst splitLoop.simps) simp
      obtain y ys where r: "?rest = y # ys" using ne by (cases ?rest) auto
      have "length (joinStr [10, 10] (cur # ?rest)) = length cur + 2 + length (joinStr [10, 10] ?rest)"
        by (simp add: r)
      then show ?thesis using ih n by (simp add: e)
    qed
  qed
qed

lemma splitRx_length: "length (joinStr [10, 10] (splitRx flagsG blankLineRx s)) \<le> length s"
  using splitLoop_length[of None "[]" s] by (simp add: splitRx_def)

lemma joinStr_member_le: "b \<in> set xs \<Longrightarrow> length b \<le> length (joinStr sep xs)"
  by (induction sep xs rule: joinStr.induct) auto

lemma splitIntoBatches_length:
  "length (joinStr [10, 10] (splitIntoBatches t)) \<le> length t"
  using joinStr_filter_le[of "[10, 10]" "\<lambda>batch. trim batch \<noteq> []" "splitRx flagsG blankLineRx t"]
    splitRx_length[of t]
  by (simp add: splitIntoBatches_def)

lemma batch_length: "b \<in> set (splitIntoBatches t) \<Longrightarrow> length b \<le> length t"
  using joinStr_member_le[of b "splitIntoBatches t" "[10, 10]"] splitIntoBatches_length[of t] by simp

lemma collapse_length: "length (collapse P [32] f s) \<le> length s"
  by (induction s arbitrary: f) (auto simp: le_SucI)

lemma trim_length: "length (trim s) \<le> length s"
proof -
  obtain a c where "s = a @ trim s @ c" using trim_decomp by blast
  then have "length s = length a + length (trim s) + length c" by (metis length_append add.assoc)
  then show ?thesis by simp
qed

lemma normalizeWhitespace_length: "length (normalizeWhitespace t) \<le> length t"
  using collapse_length[of "\<lambda>c. c = 32" False "map (\<lambda>c. if inRanges unicodeSpaces c then 32 else c) t"]
  by (simp add: normalizeWhitespace_spec)

lemma processModeA_length: "length (processModeA t) \<le> length t"
  using collapse_length[of "\<lambda>c. c = 32" False "map (\<lambda>c. if c = 10 then 32 else c) t"]
    trim_length[of "collapse (\<lambda>c. c = 32) [32] False (map (\<lambda>c. if c = 10 then 32 else c) t)"]
  by (simp add: processModeA_spec)

lemma processModeC_length: "length (processModeC t) \<le> length t"
proof -
  have f: "length (filter (\<lambda>c. c \<noteq> 10) t) \<le> length t" by (rule length_filter_le)
  show ?thesis
    using f collapse_length[of isWhiteSpace False "filter (\<lambda>c. c \<noteq> 10) t"]
      trim_length[of "collapse isWhiteSpace [32] False (filter (\<lambda>c. c \<noteq> 10) t)"]
    unfolding processModeC_spec by linarith
qed

lemma finalCleanup_length: "length (finalCleanup t) \<le> length t"
  using collapse_length[of "\<lambda>c. c = 32" False t] trim_length[of "collapse (\<lambda>c. c = 32) [32] False t"]
  by (simp add: finalCleanup_spec)

lemma batchOut_length:
  assumes "\<not> blankSep False b"
  shows "length (batchOut m b) \<le> length b"
proof -
  let ?n = "normalizeWhitespace b"
  have nb: "\<not> blankSep False ?n" using assms by (simp add: normalizeWhitespace_blankSep)
  have n: "length ?n \<le> length b" by (rule normalizeWhitespace_length)
  have a: "length (finalCleanup (processModeA ?n)) \<le> length b"
    using finalCleanup_length[of "processModeA ?n"] processModeA_length[of ?n] n by simp
  have c: "length (finalCleanup (processModeC ?n)) \<le> length b"
    using finalCleanup_length[of "processModeC ?n"] processModeC_length[of ?n] n by simp
  have d: "length (finalCleanup ?n) \<le> length b"
    using finalCleanup_length[of ?n] n by simp
  show ?thesis
    using a c d processModeB_single[OF nb] by (simp add: batchOut_def Let_def)
qed

lemma batchOut_join_length:
  "length (joinStr [10, 10] (map (batchOut m) (splitIntoBatches t))) \<le> length t"
proof -
  have "\<forall>b\<in>set (splitIntoBatches t). length (batchOut m b) \<le> length b"
    using splitIntoBatches_no_blank batchOut_length by blast
  then have "length (joinStr [10, 10] (map (batchOut m) (splitIntoBatches t)))
             \<le> length (joinStr [10, 10] (splitIntoBatches t))"
    by (rule joinStr_map_le)
  then show ?thesis using splitIntoBatches_length[of t] by simp
qed

lemma processText_unprotected:
  assumes "\<forall>b\<in>set (splitIntoBatches (trim x)). noMatch patterns b" and "length x \<le> maxStringLength"
    and "trim x \<noteq> []"
  shows "processText x st =
           displayOutput (trim x) (joinStr [10, 10] (map (batchOut (mode st)) (splitIntoBatches (trim x))))
             (st\<lparr>protectedMap := [], nextTokenId := 1\<rparr>)"
proof -
  let ?bs = "splitIntoBatches (trim x)"
  let ?s = "st\<lparr>protectedMap := [], nextTokenId := 1\<rparr>"
  have t: "length (trim x) \<le> maxStringLength" using trim_length[of x] assms(2) by simp
  have b: "\<forall>b\<in>set ?bs. noMatch patterns b \<and> length b \<le> maxStringLength"
    using assms(1) batch_length[of _ "trim x"] t by fastforce
  have m: "mapBatches processBatch ?bs ?s = (Inr (map (batchOut (mode st)) ?bs), ?s)"
    using mapBatches_plain[OF b, of ?s] by simp
  have j: "length (joinStr [10, 10] (map (batchOut (mode st)) ?bs)) \<le> maxStringLength"
    using batchOut_join_length[of "mode st" "trim x"] t by simp
  show ?thesis
    using assms(3) m j by (simp add: processText_def tryBatches_def Let_def newString_fits)
qed
section \<open>Texts with tokens through normalization and the modes\<close>


















section \<open>Unknown modes\<close>

text \<open>
  C1 (as the code has it). A mode value other than \<open>A\<close>, \<open>B\<close> and \<open>C\<close> is not
  rejected: the \<open>default\<close> branch of the \<open>switch\<close> passes the normalized text on. So
  \<open>processBatch\<close> protects the batch, normalizes the protected text, restores the
  normalized text and cleans it up, and leaves out the mode step alone. It returns an
  error only where protection or restoration raises one, for a text that has become too
  long, as for any other mode. This holds for both variants of the pipeline. At the entry
  point of script.js an input that is not blank, is a string of the engine and has nothing
  for the protection rules is displayed with each batch normalized and cleaned up, its
  line breaks kept.
\<close>

theorem unknown_mode_skips_mode_step:
  assumes "mode st \<noteq> js ''A''" and "mode st \<noteq> js ''B''" and "mode st \<noteq> js ''C''"
  shows "processBatch batch st =
           (case protectContent batch st of
              (Inl e, st1) \<Rightarrow> (Inl e, st1)
            | (Inr protectedText, st1) \<Rightarrow>
                (case restoreProtectedContent (normalizeWhitespace protectedText) st1 of
                   Inl e \<Rightarrow> (Inl e, st1)
                 | Inr restored \<Rightarrow> (Inr (finalCleanup restored), st1))) \<and>
         processBatch2 batch st =
           (case protectStructureAndContent batch st of
              (Inl e, st1) \<Rightarrow> (Inl e, st1)
            | (Inr protectedText, st1) \<Rightarrow>
                (case restoreProtectedContent2 (normalizeWhitespaceWithStructure protectedText) st1 of
                   Inl e \<Rightarrow> (Inl e, st1)
                 | Inr restored \<Rightarrow> (Inr (finalCleanupWithStructure restored), st1))) \<and>
         ((\<forall>b\<in>set (splitIntoBatches (trim input)). noMatch patterns b) \<and>
          length input \<le> maxStringLength \<and> trim input \<noteq> [] \<longrightarrow>
          processText input st =
            displayOutput (trim input)
              (joinStr [10, 10]
                 (map (\<lambda>b. finalCleanup (normalizeWhitespace b)) (splitIntoBatches (trim input))))
              (st\<lparr>protectedMap := [], nextTokenId := 1\<rparr>))"
proof -
  obtain x s1 where p: "protectContent batch st = (x, s1)" by (cases "protectContent batch st")
  obtain y s2 where q: "protectStructureAndContent batch st = (y, s2)"
    by (cases "protectStructureAndContent batch st")
  have m1: "mode s1 = mode st" using protectContent_mode[of batch st] p by simp
  have m2: "mode s2 = mode st" using protectStructureAndContent_mode[of batch st] q by simp
  have a: "processBatch batch st =
           (case protectContent batch st of
              (Inl e, st1) \<Rightarrow> (Inl e, st1)
            | (Inr protectedText, st1) \<Rightarrow>
                (case restoreProtectedContent (normalizeWhitespace protectedText) st1 of
                   Inl e \<Rightarrow> (Inl e, st1)
                 | Inr restored \<Rightarrow> (Inr (finalCleanup restored), st1)))"
    using assms m1 by (cases x) (simp_all add: processBatch_def p Let_def)
  have b: "processBatch2 batch st =
           (case protectStructureAndContent batch st of
              (Inl e, st1) \<Rightarrow> (Inl e, st1)
            | (Inr protectedText, st1) \<Rightarrow>
                (case restoreProtectedContent2 (normalizeWhitespaceWithStructure protectedText) st1 of
                   Inl e \<Rightarrow> (Inl e, st1)
                 | Inr restored \<Rightarrow> (Inr (finalCleanupWithStructure restored), st1)))"
    using assms m2 by (cases y) (simp_all add: processBatch2_def q Let_def)
  have o: "batchOut (mode st) = (\<lambda>b. finalCleanup (normalizeWhitespace b))"
    using assms by (simp add: batchOut_def fun_eq_iff)
  have c: "(\<forall>b\<in>set (splitIntoBatches (trim input)). noMatch patterns b) \<and>
          length input \<le> maxStringLength \<and> trim input \<noteq> [] \<longrightarrow>
          processText input st =
            displayOutput (trim input)
              (joinStr [10, 10]
                 (map (\<lambda>b. finalCleanup (normalizeWhitespace b)) (splitIntoBatches (trim input))))
              (st\<lparr>protectedMap := [], nextTokenId := 1\<rparr>)"
    using processText_unprotected[of input st] by (simp add: o)
  show ?thesis using a b c by (intro conjI)
qed

theorem unknown_mode_skips_mode_step_witness:
  "mode (initialApp\<lparr>mode := js ''X''\<rparr>) \<noteq> js ''A'' \<and>
   mode (initialApp\<lparr>mode := js ''X''\<rparr>) \<noteq> js ''B'' \<and>
   mode (initialApp\<lparr>mode := js ''X''\<rparr>) \<noteq> js ''C'' \<and>
   processBatch (js ''a  b\<newline>c'') (initialApp\<lparr>mode := js ''X''\<rparr>) =
     (Inr (js ''a b\<newline>c''), initialApp\<lparr>mode := js ''X''\<rparr>) \<and>
   processBatch2 (js ''a  b\<newline>c'') (initialApp\<lparr>mode := js ''X''\<rparr>) =
     (Inr (js ''a b\<newline>c''), initialApp\<lparr>mode := js ''X''\<rparr>) \<and>
   outputText (processText (js ''a  b\<newline>c'') (initialApp\<lparr>mode := js ''X''\<rparr>)) = js ''a b\<newline>c''"
proof -
  let ?st = "initialApp\<lparr>mode := js ''X''\<rparr>"
  let ?b = "js ''a  b\<newline>c''"
  have a: "mode ?st \<noteq> js ''A''" and b: "mode ?st \<noteq> js ''B''" and c: "mode ?st \<noteq> js ''C''"
    by (simp_all add: js_def)
  have r1: "(case protectContent ?b ?st of
              (Inl e, st1) \<Rightarrow> (Inl e, st1)
            | (Inr protectedText, st1) \<Rightarrow>
                (case restoreProtectedContent (normalizeWhitespace protectedText) st1 of
                   Inl e \<Rightarrow> (Inl e, st1)
                 | Inr restored \<Rightarrow> (Inr (finalCleanup restored), st1))) = (Inr (js ''a b\<newline>c''), ?st)"
    by code_simp
  have r2: "(case protectStructureAndContent ?b ?st of
              (Inl e, st1) \<Rightarrow> (Inl e, st1)
            | (Inr protectedText, st1) \<Rightarrow>
                (case restoreProtectedContent2 (normalizeWhitespaceWithStructure protectedText) st1 of
                   Inl e \<Rightarrow> (Inl e, st1)
                 | Inr restored \<Rightarrow> (Inr (finalCleanupWithStructure restored), st1))) = (Inr (js ''a b\<newline>c''), ?st)"
    by code_simp
  have h: "(\<forall>b\<in>set (splitIntoBatches (trim ?b)). noMatch patterns b) \<and>
           length ?b \<le> maxStringLength \<and> trim ?b \<noteq> []"
    by code_simp
  have d: "outputText (displayOutput (trim ?b)
              (joinStr [10, 10]
                 (map (\<lambda>b. finalCleanup (normalizeWhitespace b)) (splitIntoBatches (trim ?b))))
              (?st\<lparr>protectedMap := [], nextTokenId := 1\<rparr>)) = js ''a b\<newline>c''"
    by code_simp
  note t = unknown_mode_skips_mode_step[OF a b c, of ?b ?b, unfolded r1 r2]
  show ?thesis using t a b c h d by simp
qed

text \<open>
  C1 (as the spec has it) fails: with the mode value \<open>X\<close> the input \<open>a  b\<close> is
  processed (its spaces are collapsed) and displayed, the copy button is enabled and no
  warning is shown.
\<close>

theorem unknown_mode_counterexample:
  "outputText (processText (js ''a  b'') (initialApp\<lparr>mode := js ''X''\<rparr>)) = js ''a b'' \<and>
   copyDisabled (processText (js ''a  b'') (initialApp\<lparr>mode := js ''X''\<rparr>)) = False \<and>
   warning (processText (js ''a  b'') (initialApp\<lparr>mode := js ''X''\<rparr>)) = None \<and>
   outputText (processText2 (js ''a  b'') (initialApp\<lparr>mode := js ''X''\<rparr>)) = js ''a b'' \<and>
   warning (processText2 (js ''a  b'') (initialApp\<lparr>mode := js ''X''\<rparr>)) = None"
  by code_simp
section \<open>Empty input\<close>

text \<open>
  C9. For an input that is empty or consists of whitespace only, \<open>processText\<close> sets
  the output to the empty string and returns: the protection table and the counter are not
  reset, no batch is processed, the statistics and the verification indicators are not
  touched and no warning is shown. This holds for both variants.
\<close>

theorem blank_input_gives_empty_output:
  assumes "list_all isWhiteSpace input"
  shows "processText input st = st\<lparr>outputText := []\<rparr> \<and> processText2 input st = st\<lparr>outputText := []\<rparr>"
proof -
  have t: "trim input = []" using assms by (simp add: trim_empty_iff)
  have "list_all isWhiteSpace (trim input)" using t by simp
  then show ?thesis using t by (simp add: processText_def processText2_def)
qed

theorem blank_input_gives_empty_output_witness:
  "list_all isWhiteSpace [32, 10, 9, 160] \<and>
   processText [32, 10, 9, 160] initialApp = initialApp\<lparr>outputText := []\<rparr> \<and>
   processText2 [32, 10, 9, 160] initialApp = initialApp\<lparr>outputText := []\<rparr>"
proof -
  have h: "list_all isWhiteSpace [32, 10, 9, 160]" by code_simp
  show ?thesis using blank_input_gives_empty_output[OF h, of initialApp] h by simp
qed

section \<open>The integrity verifier\<close>

text \<open>
  C5 (as the code has it). For every pair of an original and a processed text the verifier
  sets the word indicator to the equality of the numbers of words, the character indicator
  to the equality of the numbers of characters that are not whitespace, and the content
  indicator to the conjunction of the character check and the coverage check: every code
  point of the original that is not whitespace occurs among those of the processed text
  (membership in a set, neither counts nor order). The word check does not enter the
  content indicator. The output text is left as it is; when one of the three indicators
  fails the warning banner is shown, and otherwise the banner is left as it was.
\<close>

theorem verifier_checks:
  "wordMatch (verifyContentIntegrity original processed st) =
     (wordStarts False original = wordStarts False processed) \<and>
   charMatch (verifyContentIntegrity original processed st) =
     (length (filter (\<lambda>c. \<not> isWhiteSpace c) original) = length (filter (\<lambda>c. \<not> isWhiteSpace c) processed)) \<and>
   contentMatch (verifyContentIntegrity original processed st) =
     (charMatch (verifyContentIntegrity original processed st) \<and>
      set (codePoints (filter (\<lambda>c. \<not> isWhiteSpace c) original))
        \<subseteq> set (codePoints (filter (\<lambda>c. \<not> isWhiteSpace c) processed))) \<and>
   outputText (verifyContentIntegrity original processed st) = outputText st \<and>
   warning (verifyContentIntegrity original processed st) =
     (if wordMatch (verifyContentIntegrity original processed st) \<and>
         charMatch (verifyContentIntegrity original processed st) \<and>
         contentMatch (verifyContentIntegrity original processed st)
      then warning st
      else Some (js ''Content verification failed. Review output carefully.''))"
  by (auto simp: verifyContentIntegrity_def Let_def showWarning_def nonSpace_filter
        wordCount_wordStarts list_all_iff)

theorem verifier_checks_witness:
  "wordMatch (verifyContentIntegrity (js ''Hello    world'') (js ''Hello world'') initialApp) \<and>
   charMatch (verifyContentIntegrity (js ''Hello    world'') (js ''Hello world'') initialApp) \<and>
   contentMatch (verifyContentIntegrity (js ''Hello    world'') (js ''Hello world'') initialApp) \<and>
   outputText (verifyContentIntegrity (js ''Hello    world'') (js ''Hello world'') initialApp) = [] \<and>
   warning (verifyContentIntegrity (js ''Hello    world'') (js ''Hello world'') initialApp) = None"
proof -
  have w: "wordStarts False (js ''Hello    world'') = wordStarts False (js ''Hello world'')"
    by code_simp
  have c: "length (filter (\<lambda>c. \<not> isWhiteSpace c) (js ''Hello    world'')) =
           length (filter (\<lambda>c. \<not> isWhiteSpace c) (js ''Hello world''))"
    by code_simp
  have s: "set (codePoints (filter (\<lambda>c. \<not> isWhiteSpace c) (js ''Hello    world'')))
             \<subseteq> set (codePoints (filter (\<lambda>c. \<not> isWhiteSpace c) (js ''Hello world'')))"
    by code_simp
  have i: "outputText initialApp = [] \<and> warning initialApp = None"
    by (simp add: initialApp_def)
  show ?thesis
    using verifier_checks[of "js ''Hello    world''" "js ''Hello world''" initialApp] w c s i
    by simp
qed

text \<open>
  C5 (as the spec has it) fails: for the original \<open>a b\<close> and the processed text
  \<open>ab\<close> the word check fails (two words against one) and the content indicator passes
  all the same.
\<close>

theorem content_match_without_word_match:
  "\<not> wordMatch (verifyContentIntegrity (js ''a b'') (js ''ab'') initialApp) \<and>
   charMatch (verifyContentIntegrity (js ''a b'') (js ''ab'') initialApp) \<and>
   contentMatch (verifyContentIntegrity (js ''a b'') (js ''ab'') initialApp)"
  by code_simp

section \<open>Whitespace normalization\<close>

text \<open>
  C6 (as the code has it). \<open>normalizeWhitespaceWithStructure\<close> works on the lines
  between line feeds. A line that contains a token marker is left as it is. On any other
  line each run of tabs and spaces becomes one space, then each character of the class
  \<open>[\r\f\v\u00A0\u1680\u2000-\u200A\u2028\u2029\u202F\u205F\u3000]\<close> becomes a space
  of its own, and whitespace at the end of the line is removed; no carriage return becomes
  a line feed. \<open>normalizeWhitespace\<close> of script.js works on the whole text and does not
  look for markers: in a text without carriage returns each tab and each character of
  \<open>[\f\v\u00A0\u1680\u2000-\u200A\u2028\u2029\u202F\u205F\u3000]\<close> becomes a space and
  each run of spaces becomes one space.
\<close>

theorem whitespace_normalizers:
  "normalizeWhitespaceWithStructure t =
     joinStr [10]
       (map (\<lambda>line. if hasMarker line then line
                    else trimEnd (map (\<lambda>c. if inRanges otherSpaces c then 32 else c)
                                   (collapse (\<lambda>c. c = 32 \<or> c = 9) [32] False line)))
          (splitChar 10 t)) \<and>
   (13 \<notin> set t \<longrightarrow>
    normalizeWhitespace t =
      collapse (\<lambda>c. c = 32) [32] False (map (\<lambda>c. if inRanges unicodeSpaces c then 32 else c) t))"
proof -
  have "normalizeLine = (\<lambda>line. if hasMarker line then line
                    else trimEnd (map (\<lambda>c. if inRanges otherSpaces c then 32 else c)
                                   (collapse (\<lambda>c. c = 32 \<or> c = 9) [32] False line)))"
    by (rule ext) (rule normalizeLine_spec)
  then show ?thesis
    by (simp add: normalizeWhitespaceWithStructure_def normalizeWhitespace_spec)
qed

theorem whitespace_normalizers_witness:
  "normalizeWhitespaceWithStructure (js ''a'' @ [9, 32] @ js ''b  '' @ [10] @ js ''__STRUCTURED_1__  x '')
     = js ''a b'' @ [10] @ js ''__STRUCTURED_1__  x '' \<and>
   13 \<notin> set (js ''a'' @ [9, 32] @ js ''b  '' @ [10] @ js ''__STRUCTURED_1__  x '') \<and>
   normalizeWhitespace (js ''a'' @ [9, 32] @ js ''b  '' @ [10] @ js ''__STRUCTURED_1__  x '')
     = js ''a b '' @ [10] @ js ''__STRUCTURED_1__ x ''"
proof -
  let ?t = "js ''a'' @ [9, 32] @ js ''b  '' @ [10] @ js ''__STRUCTURED_1__  x ''"
  have a: "joinStr [10]
       (map (\<lambda>line. if hasMarker line then line
                    else trimEnd (map (\<lambda>c. if inRanges otherSpaces c then 32 else c)
                                   (collapse (\<lambda>c. c = 32 \<or> c = 9) [32] False line)))
          (splitChar 10 ?t)) = js ''a b'' @ [10] @ js ''__STRUCTURED_1__  x ''"
    by code_simp
  have b: "collapse (\<lambda>c. c = 32) [32] False (map (\<lambda>c. if inRanges unicodeSpaces c then 32 else c) ?t)
     = js ''a b '' @ [10] @ js ''__STRUCTURED_1__ x ''"
    by code_simp
  have h: "13 \<notin> set ?t" by code_simp
  show ?thesis using whitespace_normalizers[of ?t] a b h by simp
qed

text \<open>
  C6 (as the spec has it) fails: in the variant with structure protection two no-break
  spaces on a line without a marker become two spaces, not one, and a carriage return
  becomes a space, not a line feed; in script.js the spacing of a line with a token is
  collapsed like that of any other line.
\<close>

theorem normalizer_counterexample:
  "normalizeWhitespaceWithStructure [97, 160, 160, 98] = [97, 32, 32, 98] \<and>
   normalizeWhitespaceWithStructure [97, 13, 98] = [97, 32, 98] \<and>
   normalizeWhitespace (js ''__PROTECTED_1__  x'') = js ''__PROTECTED_1__ x''"
  by code_simp
section \<open>Single-paragraph and clean-paragraph mode\<close>

text \<open>
  C10. For every input and every state of the page, processing in mode \<open>A\<close>
  (single paragraph) and in mode \<open>B\<close> (clean paragraph) displays the same output, in
  both variants of the pipeline. In script.js no batch has a blank-line boundary, protection
  and normalization do not make one, and so mode \<open>B\<close> finds one paragraph and treats
  it as mode \<open>A\<close> does; in the variant with structure protection the two mode
  functions agree on every text.
\<close>

theorem single_and_clean_paragraph_agree:
  "outputText (processText input (st\<lparr>mode := js ''A''\<rparr>)) =
     outputText (processText input (st\<lparr>mode := js ''B''\<rparr>)) \<and>
   outputText (processText2 input (st\<lparr>mode := js ''A''\<rparr>)) =
     outputText (processText2 input (st\<lparr>mode := js ''B''\<rparr>))"
  by (simp add: processText_A_B processText2_A_B)

theorem single_and_clean_paragraph_agree_witness:
  "outputText (processText (js ''a\<newline> b\<newline>\<newline>\<newline>c  d'') (initialApp\<lparr>mode := js ''B''\<rparr>)) = js ''a b\<newline>\<newline>c d'' \<and>
   outputText (processText2 (js ''a\<newline> b\<newline>\<newline>\<newline>c  d'') (initialApp\<lparr>mode := js ''B''\<rparr>)) = js ''a b\<newline>\<newline>c d''"
proof -
  have a: "outputText (processText (js ''a\<newline> b\<newline>\<newline>\<newline>c  d'') (initialApp\<lparr>mode := js ''A''\<rparr>)) = js ''a b\<newline>\<newline>c d''"
    by code_simp
  have b: "outputText (processText2 (js ''a\<newline> b\<newline>\<newline>\<newline>c  d'') (initialApp\<lparr>mode := js ''A''\<rparr>)) = js ''a b\<newline>\<newline>c d''"
    by code_simp
  note e = single_and_clean_paragraph_agree[of "js ''a\<newline> b\<newline>\<newline>\<newline>c  d''" initialApp]
  show ?thesis
  proof (intro conjI)
    show "outputText (processText (js ''a\<newline> b\<newline>\<newline>\<newline>c  d'') (initialApp\<lparr>mode := js ''B''\<rparr>)) = js ''a b\<newline>\<newline>c d''"
      using e[THEN conjunct1, symmetric] a by (rule trans)
    show "outputText (processText2 (js ''a\<newline> b\<newline>\<newline>\<newline>c  d'') (initialApp\<lparr>mode := js ''B''\<rparr>)) = js ''a b\<newline>\<newline>c d''"
      using e[THEN conjunct2, symmetric] b by (rule trans)
  qed
qed

section \<open>Batches\<close>

text \<open>
  C8, scenario 1. The two batches of \<open>Hello    world<LF><LF>This   is   a test.\<close> are
  collapsed and displayed with one blank line between them, in both variants of the
  pipeline.
\<close>

lemma scenario_two_batches:
  "splitIntoBatches (js ''Hello    world\<newline>\<newline>This   is   a test.'') =
     [js ''Hello    world'', js ''This   is   a test.''] \<and>
   outputText (processText (js ''Hello    world\<newline>\<newline>This   is   a test.'') initialApp) =
     js ''Hello world\<newline>\<newline>This is a test.'' \<and>
   outputText (processText2 (js ''Hello    world\<newline>\<newline>This   is   a test.'') initialApp) =
     js ''Hello world\<newline>\<newline>This is a test.''"
  by code_simp

text \<open>
  C8, the general statement, at one input. The batches are not processed independently:
  the token counter and the protection table are reset once for the call and shared by
  its batches, and the restoration of a batch goes through the whole table. The second
  batch of the input below is the text of the token that the first batch got for its URL;
  its restoration puts the URL of the first batch in its place, while the same batch
  processed alone is displayed as it is. Both variants of the pipeline do the same.
\<close>

theorem batches_share_the_table:
  "outputText (processText (js ''https://a.b\<newline>\<newline>__PROTECTED_1__'') initialApp) =
     js ''https://a.b\<newline>\<newline>https://a.b'' \<and>
   outputText (processText (js ''__PROTECTED_1__'') initialApp) = js ''__PROTECTED_1__'' \<and>
   outputText (processText2 (js ''https://a.b\<newline>\<newline>__STRUCTURED_1__'') initialApp) =
     js ''https://a.b\<newline>\<newline>https://a.b'' \<and>
   outputText (processText2 (js ''__STRUCTURED_1__'') initialApp) = js ''__STRUCTURED_1__''"
  by code_simp
section \<open>Protected content\<close>

text \<open>
  C4, scenario 2. The URL of \<open>Visit https://example.com/path  now\<close> is displayed as
  it was written and the two spaces after it become one, in the three modes and in both
  variants of the pipeline.
\<close>

lemma scenario_url_script_A:
  "outputText (processText (js ''Visit https://example.com/path  now'') (initialApp\<lparr>mode := js ''A''\<rparr>))
     = js ''Visit https://example.com/path now''"
  by code_simp

lemma scenario_url_script_B:
  "outputText (processText (js ''Visit https://example.com/path  now'') (initialApp\<lparr>mode := js ''B''\<rparr>))
     = js ''Visit https://example.com/path now''"
  by code_simp

lemma scenario_url_script_C:
  "outputText (processText (js ''Visit https://example.com/path  now'') (initialApp\<lparr>mode := js ''C''\<rparr>))
     = js ''Visit https://example.com/path now''"
  by code_simp

lemma scenario_url_structure_A:
  "outputText (processText2 (js ''Visit https://example.com/path  now'') (initialApp\<lparr>mode := js ''A''\<rparr>))
     = js ''Visit https://example.com/path now''"
  by code_simp

lemma scenario_url_structure_B:
  "outputText (processText2 (js ''Visit https://example.com/path  now'') (initialApp\<lparr>mode := js ''B''\<rparr>))
     = js ''Visit https://example.com/path now''"
  by code_simp

lemma scenario_url_structure_C:
  "outputText (processText2 (js ''Visit https://example.com/path  now'') (initialApp\<lparr>mode := js ''C''\<rparr>))
     = js ''Visit https://example.com/path now''"
  by code_simp

text \<open>
  C4, the general statement, at two inputs. The URL \<open>https://example.com/?a=$$\<close> is
  matched by the URL rule and stored in the protection table as it is, and it is displayed
  with one dollar sign: the original is handed to \<open>replace\<close> as a replacement string,
  in which \<open>$$\<close> stands for one dollar sign. The inline code span with two spaces
  between \<open>a\<close> and \<open>b\<close> is matched by the inline code rule and stored as it is, and
  it is displayed with one space: the final cleanup runs after restoration and collapses the
  spaces of the restored content too. Both variants of the pipeline do the same.
\<close>

theorem protected_content_altered:
  "protectedMap (processText (js ''https://example.com/?a=$$'') initialApp) =
     [(js ''__PROTECTED_1__'', js ''https://example.com/?a=$$'')] \<and>
   outputText (processText (js ''https://example.com/?a=$$'') initialApp) =
     js ''https://example.com/?a=$'' \<and>
   protectedMap (processText (js ''run '' @ [96] @ js ''a  b'' @ [96] @ js '' now'') initialApp) =
     [(js ''__PROTECTED_1__'', [96] @ js ''a  b'' @ [96])] \<and>
   outputText (processText (js ''run '' @ [96] @ js ''a  b'' @ [96] @ js '' now'') initialApp) =
     js ''run '' @ [96] @ js ''a b'' @ [96] @ js '' now'' \<and>
   protectedMap (processText2 (js ''https://example.com/?a=$$'') initialApp) =
     [(js ''__STRUCTURED_1__'', js ''https://example.com/?a=$$'')] \<and>
   outputText (processText2 (js ''https://example.com/?a=$$'') initialApp) =
     js ''https://example.com/?a=$'' \<and>
   protectedMap (processText2 (js ''run '' @ [96] @ js ''a  b'' @ [96] @ js '' now'') initialApp) =
     [(js ''__STRUCTURED_1__'', [96] @ js ''a  b'' @ [96])] \<and>
   outputText (processText2 (js ''run '' @ [96] @ js ''a  b'' @ [96] @ js '' now'') initialApp) =
     js ''run '' @ [96] @ js ''a b'' @ [96] @ js '' now''"
  by code_simp

section \<open>Unresolved tokens\<close>

text \<open>
  C2 (as the code has it). Restoration goes through the protection table and replaces each
  token of the table where it occurs; it does not look up the markers of the text, so it
  has no lookup that can miss. In a text made of characters other than the underscore and
  of markers, with a table whose originals have neither an underscore nor a dollar sign,
  every marker that is a token of the table is replaced by its original and every other
  marker stays in the text as it is, and no error is raised as long as the text stays
  within the limit of the engine. \<open>processText\<close> has no check for markers that are
  left and does not fall back to the input because of them: an input that is not blank, is
  a string of the engine and has nothing for the protection rules is displayed processed,
  with the markers it has, through the statistics and the verifier like any other output.
\<close>

theorem lookup_miss_is_silent:
  assumes "\<forall>(tok, orig) \<in> set (protectedMap st). isMarker tok \<and> 95 \<notin> set orig \<and> 36 \<notin> set orig"
    and "list_all cleanPiece ps" and "roomFor (protectedMap st) ps"
    and "\<forall>b\<in>set (splitIntoBatches (trim x)). noMatch patterns b"
    and "length x \<le> maxStringLength" and "trim x \<noteq> []"
  shows "restoreProtectedContent (flat ps) st = Inr (concat (map (resolve (protectedMap st)) ps)) \<and>
         processText x st' =
           displayOutput (trim x)
             (joinStr [10, 10] (map (batchOut (mode st')) (splitIntoBatches (trim x))))
             (st'\<lparr>protectedMap := [], nextTokenId := 1\<rparr>)"
  using restore_pieces[OF assms(1,2,3)] processText_unprotected[OF assms(4,5,6), of st']
  by (simp add: restoreProtectedContent_def)

theorem lookup_miss_is_silent_witness:
  "restoreProtectedContent (js ''a __PROTECTED_1__ __PROTECTED_7__'')
     (initialApp\<lparr>protectedMap := [(js ''__PROTECTED_1__'', js ''https://a.b'')]\<rparr>) =
     Inr (js ''a https://a.b __PROTECTED_7__'') \<and>
   outputText (processText (js ''a  __PROTECTED_7__'') initialApp) = js ''a __PROTECTED_7__'' \<and>
   warning (processText (js ''a  __PROTECTED_7__'') initialApp) = None"
proof -
  let ?st = "initialApp\<lparr>protectedMap := [(js ''__PROTECTED_1__'', js ''https://a.b'')]\<rparr>"
  let ?ps = "[Ch 97, Ch 32, Tk (js ''__PROTECTED_1__''), Ch 32, Tk (js ''__PROTECTED_7__'')]"
  let ?x = "js ''a  __PROTECTED_7__''"
  have h1: "\<forall>(tok, orig) \<in> set (protectedMap ?st). isMarker tok \<and> 95 \<notin> set orig \<and> 36 \<notin> set orig"
    by code_simp
  have h2: "list_all cleanPiece ?ps" by code_simp
  have h3: "roomFor (protectedMap ?st) ?ps" by code_simp
  have h4: "\<forall>b\<in>set (splitIntoBatches (trim ?x)). noMatch patterns b" by code_simp
  have h5: "length ?x \<le> maxStringLength" by code_simp
  have h6: "trim ?x \<noteq> []" by code_simp
  have f: "flat ?ps = js ''a __PROTECTED_1__ __PROTECTED_7__''" by code_simp
  have r: "concat (map (resolve (protectedMap ?st)) ?ps) = js ''a https://a.b __PROTECTED_7__''"
    by code_simp
  have d: "outputText (displayOutput (trim ?x)
             (joinStr [10, 10] (map (batchOut (mode initialApp)) (splitIntoBatches (trim ?x))))
             (initialApp\<lparr>protectedMap := [], nextTokenId := 1\<rparr>)) = js ''a __PROTECTED_7__'' \<and>
           warning (displayOutput (trim ?x)
             (joinStr [10, 10] (map (batchOut (mode initialApp)) (splitIntoBatches (trim ?x))))
             (initialApp\<lparr>protectedMap := [], nextTokenId := 1\<rparr>)) = None"
    by code_simp
  note t = lookup_miss_is_silent[OF h1 h2 h3 h4 h5 h6, of initialApp, unfolded f r]
  show ?thesis using t d by simp
qed

text \<open>
  C2 (as the spec has it) fails. In the input \<open>`a` __PROTECTED_1`b`\<close> protection
  emits a token for each of the two code spans. The text \<open>__PROTECTED_1\<close> of the
  input and the two underscores at the head of the second token spell the first token, so
  the restoration of the first token takes the head of the second one away, and the second
  token is never restored: the output is \<open>`a` `a`PROTECTED_2__\<close>, not the input.
  For the input \<open>https://a.b/$&\<close> the token that protection emitted for the URL is
  a key of the table and stands in the displayed output. For the input
  \<open>a  __PROTECTED_7__\<close> the marker has no entry; the output is the processed text with
  the raw marker, and no warning is shown.
\<close>

theorem unresolved_token_counterexample:
  "protectedMap (processText ([96] @ js ''a'' @ [96] @ js '' __PROTECTED_1'' @ [96] @ js ''b'' @ [96]) initialApp) =
     [(js ''__PROTECTED_1__'', [96] @ js ''a'' @ [96]), (js ''__PROTECTED_2__'', [96] @ js ''b'' @ [96])] \<and>
   outputText (processText ([96] @ js ''a'' @ [96] @ js '' __PROTECTED_1'' @ [96] @ js ''b'' @ [96]) initialApp) =
     [96] @ js ''a'' @ [96] @ js '' '' @ [96] @ js ''a'' @ [96] @ js ''PROTECTED_2__'' \<and>
   protectedMap (processText (js ''https://a.b/$&'') initialApp) =
     [(js ''__PROTECTED_1__'', js ''https://a.b/$&'')] \<and>
   outputText (processText (js ''https://a.b/$&'') initialApp) = js ''https://a.b/__PROTECTED_1__'' \<and>
   protectedMap (processText2 (js ''https://a.b/$&'') initialApp) =
     [(js ''__STRUCTURED_1__'', js ''https://a.b/$&'')] \<and>
   outputText (processText2 (js ''https://a.b/$&'') initialApp) = js ''https://a.b/__STRUCTURED_1__'' \<and>
   outputText (processText (js ''a  __PROTECTED_7__'') initialApp) = js ''a __PROTECTED_7__'' \<and>
   warning (processText (js ''a  __PROTECTED_7__'') initialApp) = None"
  by code_simp
section \<open>Token resolution\<close>




end
